theory Spec2Isabelle
  imports Main "HOL-Library.Log_Nat"
begin

section \<open>Data model\<close>

text \<open>
  The diff engine of the repository: \<open>computeDiff\<close>, \<open>computeInlineDiff\<close> and
  \<open>getDiffStats\<close>. A JavaScript string is a sequence of code units; the functions below
  only compare code units for equality and count them, so a string is modelled as a
  \<^typ>\<open>string\<close> whose elements stand for the code units.

  \<^verbatim>\<open>
  export interface DiffSegment {
    type: 'added' | 'removed' | 'unchanged';
    text: string;
  }
  \<close>
\<close>

datatype change = Added | Removed | Unchanged

datatype DiffSegment = Seg (seg_type: change) (seg_text: string)

section \<open>Library operations of the host language\<close>

definition newline :: char where
  "newline = CHR 0x0A"

text \<open>
  \<open>s.split(sep)\<close> for a one-character separator: the pieces between the occurrences of
  the separator. The result always has at least one element; the empty string splits
  into one empty piece.
\<close>

function js_split :: "char \<Rightarrow> string \<Rightarrow> string list" where
  "js_split sep s =
     (case dropWhile (\<lambda>c. c \<noteq> sep) s of
        [] \<Rightarrow> [s]
      | _ # rest \<Rightarrow> takeWhile (\<lambda>c. c \<noteq> sep) s # js_split sep rest)"
  by pat_completeness auto
termination
proof (relation "measure (\<lambda>(sep, s). length s)")
  show "wf (measure (\<lambda>(sep, s). length s))" by simp
next
  fix sep :: char and s :: string and x :: char and rest :: string
  assume "dropWhile (\<lambda>c. c \<noteq> sep) s = x # rest"
  then have "length (x # rest) \<le> length s"
    by (metis length_dropWhile_le)
  then show "((sep, rest), (sep, s)) \<in> measure (\<lambda>(sep, s). length s)"
    by simp
qed

declare js_split.simps [simp del]

text \<open>\<open>pieces.join(sep)\<close> for a one-character separator.\<close>

fun js_join :: "char \<Rightarrow> string list \<Rightarrow> string" where
  "js_join sep [] = []"
| "js_join sep [l] = l"
| "js_join sep (l # m # ls) = l @ sep # js_join sep (m # ls)"

text \<open>
  \<open>xs.indexOf(x)\<close>: the index of the first element equal to \<open>x\<close>, or \<open>-1\<close> when
  there is none.
\<close>

fun indexOf :: "'a list \<Rightarrow> 'a \<Rightarrow> int" where
  "indexOf [] x = - 1"
| "indexOf (y # ys) x =
     (if y = x then 0
      else (let r = indexOf ys x in if r < 0 then - 1 else r + 1))"

text \<open>
  \<open>s.indexOf(c, pos)\<close> on a string, for a one-character search string: the absolute
  index of the first occurrence at or after \<open>pos\<close>, or \<open>-1\<close>.
\<close>

definition str_indexOf :: "string \<Rightarrow> char \<Rightarrow> nat \<Rightarrow> int" where
  "str_indexOf s c pos =
     (let r = indexOf (drop pos s) c in if r < 0 then - 1 else int pos + r)"

section \<open>Line diff\<close>

text \<open>
  The state of the loop of \<open>computeDiff\<close>: the cursors \<open>i\<close> and \<open>j\<close> and the
  segments pushed so far. \<open>diff_step\<close> is one run of the loop body; it is only run
  while one of the cursors is in range, so each line it reads exists. The branch for
  two different lines reads, in the source:

  \<^verbatim>\<open>
  const nextMatchInText1 = lines1.slice(i + 1).indexOf(lines2[j]);
  const nextMatchInText2 = lines2.slice(j + 1).indexOf(lines1[i]);
  if (nextMatchInText1 >= 0 &&
      (nextMatchInText2 < 0 || nextMatchInText1 < nextMatchInText2)) {
    segments.push({ type: 'removed', text: lines1[i] }); i++;
  } else if (nextMatchInText2 >= 0 &&
      (nextMatchInText1 < 0 || nextMatchInText2 < nextMatchInText1)) {
    segments.push({ type: 'added', text: lines2[j] }); j++;
  } else {
    segments.push({ type: 'removed', text: lines1[i] });
    segments.push({ type: 'added', text: lines2[j] }); i++; j++;
  }
  \<close>
\<close>

type_synonym diff_state = "nat \<times> nat \<times> DiffSegment list"

definition diff_step :: "string list \<Rightarrow> string list \<Rightarrow> diff_state \<Rightarrow> diff_state" where
  "diff_step lines1 lines2 st =
     (case st of (i, j, segments) \<Rightarrow>
        if i \<ge> length lines1 then
          (i, j + 1, segments @ [Seg Added (lines2 ! j)])
        else if j \<ge> length lines2 then
          (i + 1, j, segments @ [Seg Removed (lines1 ! i)])
        else if lines1 ! i = lines2 ! j then
          (i + 1, j + 1, segments @ [Seg Unchanged (lines1 ! i)])
        else
          (let nextMatchInText1 = indexOf (drop (i + 1) lines1) (lines2 ! j);
               nextMatchInText2 = indexOf (drop (j + 1) lines2) (lines1 ! i)
           in if nextMatchInText1 \<ge> 0 \<and>
                 (nextMatchInText2 < 0 \<or> nextMatchInText1 < nextMatchInText2) then
                (i + 1, j, segments @ [Seg Removed (lines1 ! i)])
              else if nextMatchInText2 \<ge> 0 \<and>
                 (nextMatchInText1 < 0 \<or> nextMatchInText2 < nextMatchInText1) then
                (i, j + 1, segments @ [Seg Added (lines2 ! j)])
              else
                (i + 1, j + 1,
                 segments @ [Seg Removed (lines1 ! i), Seg Added (lines2 ! j)])))"

function diff_loop :: "string list \<Rightarrow> string list \<Rightarrow> diff_state \<Rightarrow> DiffSegment list" where
  "diff_loop lines1 lines2 (i, j, segments) =
     (if i < length lines1 \<or> j < length lines2
      then diff_loop lines1 lines2 (diff_step lines1 lines2 (i, j, segments))
      else segments)"
  by pat_completeness auto
termination
  by (relation "measure (\<lambda>(l1, l2, i, j, s). (length l1 - i) + (length l2 - j))")
     (auto simp: diff_step_def Let_def)

declare diff_loop.simps [simp del]

definition computeDiff :: "string \<Rightarrow> string \<Rightarrow> DiffSegment list" where
  "computeDiff text1 text2 =
     diff_loop (js_split newline text1) (js_split newline text2) (0, 0, [])"

section \<open>Character diff\<close>

text \<open>The inner loop of \<open>computeInlineDiff\<close> that extends a match.\<close>

function commonLen_loop :: "string \<Rightarrow> string \<Rightarrow> nat \<Rightarrow> nat \<Rightarrow> nat \<Rightarrow> nat" where
  "commonLen_loop text1 text2 i j commonLen =
     (if i + commonLen < length text1 \<and> j + commonLen < length text2 \<and>
         text1 ! (i + commonLen) = text2 ! (j + commonLen)
      then commonLen_loop text1 text2 i j (commonLen + 1)
      else commonLen)"
  by pat_completeness auto
termination
  by (relation "measure (\<lambda>(t1, t2, i, j, n). length t1 - (i + n))") auto

declare commonLen_loop.simps [simp del]

text \<open>
  The loop of \<open>computeInlineDiff\<close>. The two \<open>break\<close> statements leave the loop, so
  those branches return the segments at once.
\<close>

function inline_loop :: "string \<Rightarrow> string \<Rightarrow> diff_state \<Rightarrow> DiffSegment list" where
  "inline_loop text1 text2 (i, j, segments) =
     (if i < length text1 \<or> j < length text2 then
        if i \<ge> length text1 then
          segments @ [Seg Added (drop j text2)]
        else if j \<ge> length text2 then
          segments @ [Seg Removed (drop i text1)]
        else if text1 ! i = text2 ! j then
          (let commonLen = commonLen_loop text1 text2 i j 0
           in if commonLen > 0 then
                inline_loop text1 text2
                  (i + commonLen, j + commonLen,
                   segments @ [Seg Unchanged (take commonLen (drop i text1))])
              else inline_loop text1 text2 (i, j, segments))
        else
          (let nextMatchInText1 = str_indexOf text1 (text2 ! j) (i + 1);
               nextMatchInText2 = str_indexOf text2 (text1 ! i) (j + 1)
           in if nextMatchInText1 \<ge> 0 \<and>
                 (nextMatchInText2 < 0 \<or>
                  nextMatchInText1 - int i < nextMatchInText2 - int j) then
                inline_loop text1 text2 (i + 1, j, segments @ [Seg Removed [text1 ! i]])
              else if nextMatchInText2 \<ge> 0 \<and>
                 (nextMatchInText1 < 0 \<or>
                  nextMatchInText2 - int j < nextMatchInText1 - int i) then
                inline_loop text1 text2 (i, j + 1, segments @ [Seg Added [text2 ! j]])
              else
                inline_loop text1 text2
                  (i + 1, j + 1,
                   segments @ [Seg Removed [text1 ! i], Seg Added [text2 ! j]]))
      else segments)"
  by pat_completeness auto
termination
proof (relation "measure (\<lambda>(t1, t2, i, j, s). (length t1 - i) + (length t2 - j))",
       goal_cases)
  case 1
  show ?case by simp
next
  case (2 text1 text2 i j segments x)
  then show ?case by auto
next
  case (3 text1 text2 i j segments x)
  have ge: "n \<le> commonLen_loop text1 text2 i j n" for n
  proof (induction text1 text2 i j n rule: commonLen_loop.induct)
    case (1 text1 text2 i j commonLen)
    then show ?case
      by (subst commonLen_loop.simps) (auto simp: Suc_leD)
  qed
  have "commonLen_loop text1 text2 i j 0 = commonLen_loop text1 text2 i j (0 + 1)"
    using 3 by (subst commonLen_loop.simps) simp
  with ge [of "0 + 1"] have "0 < commonLen_loop text1 text2 i j 0"
    by simp
  with 3 show ?case by simp
next
  case (4 text1 text2 i j segments x xa)
  then show ?case by auto
next
  case (5 text1 text2 i j segments x xa)
  then show ?case by auto
next
  case (6 text1 text2 i j segments x xa)
  then show ?case by auto
qed

declare inline_loop.simps [simp del]

definition computeInlineDiff :: "string \<Rightarrow> string \<Rightarrow> DiffSegment list" where
  "computeInlineDiff text1 text2 = inline_loop text1 text2 (0, 0, [])"

section \<open>Numbers of the host language\<close>

text \<open>
  Every number of the program is an IEEE 754 binary64 value. The counters and lengths
  are integers far below \<open>2 ^ 53\<close> (no engine holds a string that long), so they are
  exact and modelled as \<^typ>\<open>nat\<close>. The similarity is a quotient: it is modelled by
  the rational value of the double, and each division and multiplication rounds its
  exact result to the nearest double, ties to the even significand (\<open>fl\<close>). The
  values that occur are \<open>0\<close> or lie between \<open>2 ^ - 54\<close> and \<open>100\<close>, inside the normal
  range, so neither overflow nor gradual underflow is modelled.
\<close>

definition ilog2 :: "rat \<Rightarrow> int" where
  \<comment> \<open>for \<open>0 < q\<close>: the exponent \<open>e\<close> with \<open>2 ^ e \<le> q < 2 ^ (e + 1)\<close>\<close>
  "ilog2 q =
     (let (a, b) = quotient_of q;
          k = bitlen a - bitlen b
      in if 2 powi k \<le> q then k else k - 1)"

definition round_even :: "rat \<Rightarrow> int" where
  \<comment> \<open>the nearest integer, a tie going to the even one\<close>
  "round_even x =
     (let f = \<lfloor>x\<rfloor>; d = x - of_int f
      in if d < 1 / 2 then f
         else if 1 / 2 < d then f + 1
         else if even f then f else f + 1)"

definition fl :: "rat \<Rightarrow> rat" where
  \<comment> \<open>rounding to binary64: 53 significant bits\<close>
  "fl q =
     (if q = 0 then 0
      else (let ulp = 2 powi (ilog2 \<bar>q\<bar> - 52)
            in of_int (round_even (q / ulp)) * ulp))"

definition js_div :: "rat \<Rightarrow> rat \<Rightarrow> rat" where
  "js_div x y = fl (x / y)"

definition js_mul :: "rat \<Rightarrow> rat \<Rightarrow> rat" where
  "js_mul x y = fl (x * y)"

definition Math_round :: "rat \<Rightarrow> rat" where
  \<comment> \<open>\<open>Math.round\<close>: the nearest integer, a tie going up\<close>
  "Math_round x = of_int \<lfloor>x + 1 / 2\<rfloor>"

section \<open>Statistics\<close>

record DiffStats =
  linesAdded :: nat
  linesRemoved :: nat
  linesUnchanged :: nat
  charactersAdded :: nat
  charactersRemoved :: nat
  similarity :: rat

text \<open>
  The five counters that the \<open>forEach\<close> callback of \<open>getDiffStats\<close> updates, in the
  order \<open>linesAdded\<close>, \<open>linesRemoved\<close>, \<open>linesUnchanged\<close>, \<open>charactersAdded\<close>,
  \<open>charactersRemoved\<close>. The similarity is computed by

  \<^verbatim>\<open>
  const totalChars = text1.length + text2.length;
  const unchangedChars = diff
    .filter(s => s.type === 'unchanged')
    .reduce((sum, s) => sum + s.text.length, 0);
  const similarity = totalChars > 0 ? (unchangedChars * 2) / totalChars : 1;
  ... similarity: Math.round(similarity * 100) / 100
  \<close>
\<close>

type_synonym counters = "nat \<times> nat \<times> nat \<times> nat \<times> nat"

fun count_segment :: "counters \<Rightarrow> DiffSegment \<Rightarrow> counters" where
  "count_segment (la, lr, lu, ca, cr) segment =
     (if seg_type segment = Added then
        (la + 1, lr, lu, ca + length (seg_text segment), cr)
      else if seg_type segment = Removed then
        (la, lr + 1, lu, ca, cr + length (seg_text segment))
      else
        (la, lr, lu + 1, ca, cr))"

definition getDiffStats :: "string \<Rightarrow> string \<Rightarrow> DiffStats" where
  "getDiffStats text1 text2 =
     (let diff = computeDiff text1 text2;
          (la, lr, lu, ca, cr) = foldl count_segment (0, 0, 0, 0, 0) diff;
          totalChars = length text1 + length text2;
          unchangedChars =
            foldl (\<lambda>sum s. sum + length (seg_text s)) 0
              (filter (\<lambda>s. seg_type s = Unchanged) diff);
          similarity =
            (if totalChars > 0
             then js_div (of_nat (unchangedChars * 2)) (of_nat totalChars)
             else 1)
      in \<lparr> linesAdded = la, linesRemoved = lr, linesUnchanged = lu,
           charactersAdded = ca, charactersRemoved = cr,
           similarity = js_div (Math_round (js_mul similarity 100)) 100 \<rparr>)"

section \<open>The loops as recursions on the remaining input\<close>

text \<open>
  The loop of \<open>computeDiff\<close> reads only the lines at and after its cursors. \<open>diff_list\<close>
  is the same case analysis on the remaining lines; \<open>diff_loop_list\<close> below proves that
  the loop computes it.
\<close>

fun diff_list :: "string list \<Rightarrow> string list \<Rightarrow> DiffSegment list" where
  "diff_list [] [] = []"
| "diff_list [] (y # ys) = Seg Added y # diff_list [] ys"
| "diff_list (x # xs) [] = Seg Removed x # diff_list xs []"
| "diff_list (x # xs) (y # ys) =
     (if x = y then Seg Unchanged x # diff_list xs ys
      else if indexOf xs y \<ge> 0 \<and> (indexOf ys x < 0 \<or> indexOf xs y < indexOf ys x) then
        Seg Removed x # diff_list xs (y # ys)
      else if indexOf ys x \<ge> 0 \<and> (indexOf xs y < 0 \<or> indexOf ys x < indexOf xs y) then
        Seg Added y # diff_list (x # xs) ys
      else Seg Removed x # Seg Added y # diff_list xs ys)"

text \<open>
  The same for \<open>computeInlineDiff\<close>: \<open>lcp\<close> is the longest common prefix, which
  the inner loop measures, and \<open>inline_list\<close> is the case analysis of the loop on the
  remaining characters.
\<close>

fun lcp :: "'a list \<Rightarrow> 'a list \<Rightarrow> 'a list" where
  "lcp (x # xs) (y # ys) = (if x = y then x # lcp xs ys else [])"
| "lcp xs ys = []"

function inline_list :: "string \<Rightarrow> string \<Rightarrow> DiffSegment list" where
  "inline_list [] [] = []"
| "inline_list [] (y # ys) = [Seg Added (y # ys)]"
| "inline_list (x # xs) [] = [Seg Removed (x # xs)]"
| "inline_list (x # xs) (y # ys) =
     (if x = y then
        Seg Unchanged (x # lcp xs ys) #
          inline_list (drop (length (lcp xs ys)) xs) (drop (length (lcp xs ys)) ys)
      else if indexOf xs y \<ge> 0 \<and> (indexOf ys x < 0 \<or> indexOf xs y < indexOf ys x) then
        Seg Removed [x] # inline_list xs (y # ys)
      else if indexOf ys x \<ge> 0 \<and> (indexOf xs y < 0 \<or> indexOf ys x < indexOf xs y) then
        Seg Added [y] # inline_list (x # xs) ys
      else Seg Removed [x] # Seg Added [y] # inline_list xs ys)"
  by pat_completeness auto
termination
  by (relation "measure (\<lambda>(xs, ys). length xs + length ys)") auto


section \<open>Notions of the specification\<close>

text \<open>
  A line \<open>reappears\<close> in the lines that follow when it occurs among them; its
  \<open>distance\<close> is then the offset of its first occurrence.
\<close>

definition reappears :: "'a \<Rightarrow> 'a list \<Rightarrow> bool" where
  "reappears x xs \<longleftrightarrow> x \<in> set xs"

definition distance :: "'a \<Rightarrow> 'a list \<Rightarrow> nat" where
  "distance x xs = length (takeWhile (\<lambda>y. y \<noteq> x) xs)"

text \<open>
  The uncoalesced character-by-character algorithm of the specification: the loop of
  \<open>computeDiff\<close> run on the individual characters of the two texts, each character a
  one-character string.
\<close>

definition chars :: "string \<Rightarrow> string list" where
  "chars s = map (\<lambda>c. [c]) s"

definition uncoalesced_diff :: "string \<Rightarrow> string \<Rightarrow> DiffSegment list" where
  "uncoalesced_diff text1 text2 = diff_loop (chars text1) (chars text2) (0, 0, [])"

text \<open>
  Merging each maximal run of adjacent unchanged segments into one unchanged segment.
\<close>

fun merge_unchanged :: "DiffSegment list \<Rightarrow> DiffSegment list" where
  "merge_unchanged (s # t # ss) =
     (if seg_type s = Unchanged \<and> seg_type t = Unchanged
      then merge_unchanged (Seg Unchanged (seg_text s @ seg_text t) # ss)
      else s # merge_unchanged (t # ss))"
| "merge_unchanged ss = ss"

text \<open>
  The loop of \<open>computeDiff\<close> stopped as soon as one cursor has reached the end of its
  input: the steps it takes while both cursors are in range.
\<close>

function diff_main_loop :: "string list \<Rightarrow> string list \<Rightarrow> diff_state \<Rightarrow> diff_state" where
  "diff_main_loop lines1 lines2 (i, j, segments) =
     (if i < length lines1 \<and> j < length lines2
      then diff_main_loop lines1 lines2 (diff_step lines1 lines2 (i, j, segments))
      else (i, j, segments))"
  by pat_completeness auto
termination
  by (relation "measure (\<lambda>(l1, l2, i, j, s). (length l1 - i) + (length l2 - j))")
     (auto simp: diff_step_def Let_def)

declare diff_main_loop.simps [simp del]

text \<open>
  \<open>main_list\<close> is \<open>diff_main_loop\<close> on the remaining input: the segments pushed
  while both inputs last, and how many elements of each input they consume.
\<close>

fun main_list :: "string list \<Rightarrow> string list \<Rightarrow> DiffSegment list \<times> nat \<times> nat" where
  "main_list (x # xs) (y # ys) =
     (if x = y then
        (case main_list xs ys of (B, a, b) \<Rightarrow> (Seg Unchanged x # B, Suc a, Suc b))
      else if indexOf xs y \<ge> 0 \<and> (indexOf ys x < 0 \<or> indexOf xs y < indexOf ys x) then
        (case main_list xs (y # ys) of (B, a, b) \<Rightarrow> (Seg Removed x # B, Suc a, b))
      else if indexOf ys x \<ge> 0 \<and> (indexOf xs y < 0 \<or> indexOf ys x < indexOf xs y) then
        (case main_list (x # xs) ys of (B, a, b) \<Rightarrow> (Seg Added y # B, a, Suc b))
      else
        (case main_list xs ys of (B, a, b) \<Rightarrow>
           (Seg Removed x # Seg Added y # B, Suc a, Suc b)))"
| "main_list xs ys = ([], 0, 0)"



text \<open>
  The unit in the last place of the double nearest \<open>q\<close>; the similarity that
  \<open>getDiffStats\<close> computes from the number of unchanged characters and the total
  length; and the summed text length of the unchanged segments of a diff.
\<close>

definition ulp :: "rat \<Rightarrow> rat" where
  "ulp q = 2 powi (ilog2 \<bar>q\<bar> - 52)"


definition similarity_of :: "nat \<Rightarrow> nat \<Rightarrow> rat" where
  "similarity_of unchangedChars totalChars =
     js_div (Math_round (js_mul
       (if totalChars > 0
        then js_div (of_nat (unchangedChars * 2)) (of_nat totalChars)
        else 1) 100)) 100"

definition double_product :: "nat \<Rightarrow> nat \<Rightarrow> rat" where
  \<comment> \<open>the double \<open>similarity * 100\<close> that \<open>Math.round\<close> receives\<close>
  "double_product unchangedChars totalChars =
     js_mul
       (if totalChars > 0
        then js_div (of_nat (unchangedChars * 2)) (of_nat totalChars)
        else 1) 100"

definition unchanged_length :: "DiffSegment list \<Rightarrow> nat" where
  "unchanged_length diff =
     sum_list (map (\<lambda>s. length (seg_text s)) (filter (\<lambda>s. seg_type s = Unchanged) diff))"


section \<open>The line loop computes the recursion\<close>

lemma diff_list_drop:
  assumes "i < length lines1" "j < length lines2"
  shows "diff_list (drop i lines1) (drop j lines2) =
     (let x = lines1 ! i; y = lines2 ! j;
          n1 = indexOf (drop (Suc i) lines1) y;
          n2 = indexOf (drop (Suc j) lines2) x
      in if x = y then
           Seg Unchanged x # diff_list (drop (Suc i) lines1) (drop (Suc j) lines2)
         else if n1 \<ge> 0 \<and> (n2 < 0 \<or> n1 < n2) then
           Seg Removed x # diff_list (drop (Suc i) lines1) (drop j lines2)
         else if n2 \<ge> 0 \<and> (n1 < 0 \<or> n2 < n1) then
           Seg Added y # diff_list (drop i lines1) (drop (Suc j) lines2)
         else Seg Removed x # Seg Added y #
           diff_list (drop (Suc i) lines1) (drop (Suc j) lines2))"
    (is "_ = ?rhs")
proof -
  have d1: "lines1 ! i # drop (Suc i) lines1 = drop i lines1"
    using assms by (simp add: Cons_nth_drop_Suc)
  have d2: "lines2 ! j # drop (Suc j) lines2 = drop j lines2"
    using assms by (simp add: Cons_nth_drop_Suc)
  show ?thesis
    apply (subst (1) d1 [symmetric])
    apply (subst (1) d2 [symmetric])
    apply (simp only: diff_list.simps Let_def)
    apply (simp only: d1 d2)
    done
qed

lemma diff_loop_list:
  "i \<le> length lines1 \<Longrightarrow> j \<le> length lines2 \<Longrightarrow>
   diff_loop lines1 lines2 (i, j, segments) =
     segments @ diff_list (drop i lines1) (drop j lines2)"
proof (induction lines1 lines2 "(i, j, segments)" arbitrary: i j segments
       rule: diff_loop.induct)
  case (1 lines1 lines2 i j segments)
  show ?case
  proof (cases "i < length lines1 \<or> j < length lines2")
    case False
    with "1.prems" show ?thesis
      by (subst diff_loop.simps) simp
  next
    case True
    note run = True
    obtain i' j' segs' where step: "diff_step lines1 lines2 (i, j, segments) = (i', j', segs')"
      by (cases "diff_step lines1 lines2 (i, j, segments)") blast
    have unfold: "diff_loop lines1 lines2 (i, j, segments) = diff_loop lines1 lines2 (i', j', segs')"
      using run step by (subst diff_loop.simps) simp
    show ?thesis
    proof (cases "i < length lines1")
      case False
      then have i: "i = length lines1" and j: "j < length lines2"
        using "1.prems" run by auto
      from step i have s: "i' = i" "j' = j + 1" "segs' = segments @ [Seg Added (lines2 ! j)]"
        by (auto simp: diff_step_def)
      have "diff_loop lines1 lines2 (i', j', segs') = segs' @ diff_list (drop i' lines1) (drop j' lines2)"
        using "1.hyps" [OF run step] s i j by simp
      then show ?thesis
        using unfold s i j by (simp add: Cons_nth_drop_Suc [symmetric])
    next
      case True
      note i = True
      show ?thesis
      proof (cases "j < length lines2")
        case False
        then have j: "j = length lines2" using "1.prems" by simp
        from step i j have s: "i' = i + 1" "j' = j" "segs' = segments @ [Seg Removed (lines1 ! i)]"
          by (auto simp: diff_step_def)
        have "diff_loop lines1 lines2 (i', j', segs') = segs' @ diff_list (drop i' lines1) (drop j' lines2)"
          using "1.hyps" [OF run step] s i j by simp
        then show ?thesis
          using unfold s i j by (simp add: Cons_nth_drop_Suc [symmetric])
      next
        case True
        note j = True
        have le: "i' \<le> length lines1" "j' \<le> length lines2"
          using step i j by (auto simp: diff_step_def Let_def split: if_splits)
        have ih: "diff_loop lines1 lines2 (i', j', segs') = segs' @ diff_list (drop i' lines1) (drop j' lines2)"
          using "1.hyps" [OF run step] le by simp
        show ?thesis
          unfolding unfold ih diff_list_drop [OF i j]
          using step i j
          by (auto simp: diff_step_def Let_def split: if_splits)
      qed
    qed
  qed
qed

lemma computeDiff_list:
  "computeDiff text1 text2 = diff_list (js_split newline text1) (js_split newline text2)"
  by (simp add: computeDiff_def diff_loop_list)

section \<open>The character loop computes the recursion\<close>

lemma lcp_take1: "lcp xs ys = take (length (lcp xs ys)) xs"
  by (induction xs ys rule: lcp.induct) auto

lemma lcp_take2: "lcp xs ys = take (length (lcp xs ys)) ys"
  by (induction xs ys rule: lcp.induct) auto

lemma lcp_length1: "length (lcp xs ys) \<le> length xs"
  by (induction xs ys rule: lcp.induct) auto

lemma lcp_length2: "length (lcp xs ys) \<le> length ys"
  by (induction xs ys rule: lcp.induct) auto

lemma commonLen_loop_lcp:
  "i + n \<le> length text1 \<Longrightarrow> j + n \<le> length text2 \<Longrightarrow>
   commonLen_loop text1 text2 i j n =
     n + length (lcp (drop (i + n) text1) (drop (j + n) text2))"
proof (induction text1 text2 i j n rule: commonLen_loop.induct)
  case (1 text1 text2 i j commonLen)
  show ?case
  proof (cases "i + commonLen < length text1 \<and> j + commonLen < length text2")
    case False
    then have "drop (i + commonLen) text1 = [] \<or> drop (j + commonLen) text2 = []"
      by auto
    then have "lcp (drop (i + commonLen) text1) (drop (j + commonLen) text2) = []"
      by (cases "drop (i + commonLen) text1") auto
    with False show ?thesis
      by (subst commonLen_loop.simps) auto
  next
    case True
    then have d1: "drop (i + commonLen) text1 =
        text1 ! (i + commonLen) # drop (i + (commonLen + 1)) text1"
      by (simp add: Cons_nth_drop_Suc)
    from True have d2: "drop (j + commonLen) text2 =
        text2 ! (j + commonLen) # drop (j + (commonLen + 1)) text2"
      by (simp add: Cons_nth_drop_Suc)
    show ?thesis
    proof (cases "text1 ! (i + commonLen) = text2 ! (j + commonLen)")
      case False
      with True show ?thesis
        by (subst commonLen_loop.simps) (simp add: d1 d2)
    next
      case eq: True
      have "commonLen_loop text1 text2 i j (commonLen + 1) =
          commonLen + 1 +
          length (lcp (drop (i + (commonLen + 1)) text1) (drop (j + (commonLen + 1)) text2))"
        using "1.IH" True eq by simp
      with True eq show ?thesis
        by (subst commonLen_loop.simps) (simp add: d1 d2)
    qed
  qed
qed

lemma indexOf_ge: "- 1 \<le> indexOf xs x"
  by (induction xs) (auto simp: Let_def)

lemma inline_choice:
  fixes i j :: nat
  shows "(0 \<le> str_indexOf s c (i + 1) \<and>
      (str_indexOf t d (j + 1) < 0 \<or>
       str_indexOf s c (i + 1) - int i < str_indexOf t d (j + 1) - int j)) \<longleftrightarrow>
     (0 \<le> indexOf (drop (Suc i) s) c \<and>
      (indexOf (drop (Suc j) t) d < 0 \<or>
       indexOf (drop (Suc i) s) c < indexOf (drop (Suc j) t) d))"
  using indexOf_ge [of "drop (Suc i) s" c] indexOf_ge [of "drop (Suc j) t" d]
  by (auto simp: str_indexOf_def Let_def)

lemma inline_list_drop:
  assumes "i < length text1" "j < length text2"
  shows "inline_list (drop i text1) (drop j text2) =
     (if text1 ! i = text2 ! j then
        Seg Unchanged (text1 ! i # lcp (drop (Suc i) text1) (drop (Suc j) text2)) #
          inline_list
            (drop (length (lcp (drop (Suc i) text1) (drop (Suc j) text2))) (drop (Suc i) text1))
            (drop (length (lcp (drop (Suc i) text1) (drop (Suc j) text2))) (drop (Suc j) text2))
      else if indexOf (drop (Suc i) text1) (text2 ! j) \<ge> 0 \<and>
          (indexOf (drop (Suc j) text2) (text1 ! i) < 0 \<or>
           indexOf (drop (Suc i) text1) (text2 ! j) < indexOf (drop (Suc j) text2) (text1 ! i)) then
        Seg Removed [text1 ! i] # inline_list (drop (Suc i) text1) (drop j text2)
      else if indexOf (drop (Suc j) text2) (text1 ! i) \<ge> 0 \<and>
          (indexOf (drop (Suc i) text1) (text2 ! j) < 0 \<or>
           indexOf (drop (Suc j) text2) (text1 ! i) < indexOf (drop (Suc i) text1) (text2 ! j)) then
        Seg Added [text2 ! j] # inline_list (drop i text1) (drop (Suc j) text2)
      else Seg Removed [text1 ! i] # Seg Added [text2 ! j] #
        inline_list (drop (Suc i) text1) (drop (Suc j) text2))"
proof -
  have d1: "text1 ! i # drop (Suc i) text1 = drop i text1"
    using assms by (simp add: Cons_nth_drop_Suc)
  have d2: "text2 ! j # drop (Suc j) text2 = drop j text2"
    using assms by (simp add: Cons_nth_drop_Suc)
  show ?thesis
    apply (subst (1) d1 [symmetric])
    apply (subst (1) d2 [symmetric])
    apply (simp only: inline_list.simps)
    apply (simp only: d1 d2)
    done
qed

lemma inline_loop_list:
  "i \<le> length text1 \<Longrightarrow> j \<le> length text2 \<Longrightarrow>
   inline_loop text1 text2 (i, j, segments) =
     segments @ inline_list (drop i text1) (drop j text2)"
proof (induction text1 text2 "(i, j, segments)" arbitrary: i j segments
       rule: inline_loop.induct)
  case (1 text1 text2 i j segments)
  consider (finished) "i = length text1" "j = length text2"
    | (added) "i = length text1" "j < length text2"
    | (removed) "i < length text1" "j = length text2"
    | (both) "i < length text1" "j < length text2"
    using "1.prems" by linarith
  then show ?case
  proof cases
    case finished
    then show ?thesis
      by (subst inline_loop.simps) simp
  next
    case added
    then have "drop j text2 = text2 ! j # drop (Suc j) text2"
      by (simp add: Cons_nth_drop_Suc)
    then have "inline_list (drop i text1) (drop j text2) = [Seg Added (drop j text2)]"
      using added by simp
    with added show ?thesis
      by (subst inline_loop.simps) simp
  next
    case removed
    then have "drop i text1 = text1 ! i # drop (Suc i) text1"
      by (simp add: Cons_nth_drop_Suc)
    then have "inline_list (drop i text1) (drop j text2) = [Seg Removed (drop i text1)]"
      using removed by simp
    with removed show ?thesis
      by (subst inline_loop.simps) simp
  next
    case both
    note run = disjI1 [of "i < length text1" "j < length text2", OF both(1)]
    have ni: "\<not> length text1 \<le> i" and nj: "\<not> length text2 \<le> j"
      using both by auto
    show ?thesis
    proof (cases "text1 ! i = text2 ! j")
      case True
      define p where "p = lcp (drop (Suc i) text1) (drop (Suc j) text2)"
      define n where "n = commonLen_loop text1 text2 i j 0"
      have "lcp (drop i text1) (drop j text2) = text1 ! i # p"
        using both True
        by (simp add: Cons_nth_drop_Suc [symmetric] p_def)
      then have n: "n = Suc (length p)"
        using both commonLen_loop_lcp [of i 0 text1 j text2] by (simp add: n_def)
      have le1: "i + n \<le> length text1"
        using lcp_length1 [of "drop (Suc i) text1" "drop (Suc j) text2"] both n
        by (simp add: p_def)
      have le2: "j + n \<le> length text2"
        using lcp_length2 [of "drop (Suc i) text1" "drop (Suc j) text2"] both n
        by (simp add: p_def)
      have tk: "take (Suc (length p)) (drop i text1) = text1 ! i # p"
        using lcp_take1 [of "drop (Suc i) text1" "drop (Suc j) text2"] both
        by (simp add: Cons_nth_drop_Suc [symmetric] p_def)
      have ih: "inline_loop text1 text2
            (i + n, j + n, segments @ [Seg Unchanged (take n (drop i text1))]) =
          (segments @ [Seg Unchanged (take n (drop i text1))]) @
            inline_list (drop (i + n) text1) (drop (j + n) text2)"
        using "1.hyps"(1) [OF run ni nj True n_def _ le1 le2] n by simp
      have "inline_loop text1 text2 (i, j, segments) =
          inline_loop text1 text2
            (i + n, j + n, segments @ [Seg Unchanged (take n (drop i text1))])"
        using both True n by (subst inline_loop.simps) (simp add: n_def [symmetric])
      also note ih
      finally show ?thesis
        using True n
        by (simp add: inline_list_drop [OF both] tk p_def [symmetric] add.commute)
    next
      case False
      define n1 where "n1 = str_indexOf text1 (text2 ! j) (Suc i)"
      define n2 where "n2 = str_indexOf text2 (text1 ! i) (Suc j)"
      have n1: "n1 = str_indexOf text1 (text2 ! j) (i + 1)"
        and n2: "n2 = str_indexOf text2 (text1 ! i) (j + 1)"
        by (simp_all add: n1_def n2_def)
      define r1 where "r1 = indexOf (drop (Suc i) text1) (text2 ! j)"
      define r2 where "r2 = indexOf (drop (Suc j) text2) (text1 ! i)"
      have c1: "(0 \<le> n1 \<and> (n2 < 0 \<or> n1 - int i < n2 - int j)) \<longleftrightarrow>
          (0 \<le> r1 \<and> (r2 < 0 \<or> r1 < r2))"
        unfolding n1 n2 r1_def r2_def by (rule inline_choice)
      have c2: "(0 \<le> n2 \<and> (n1 < 0 \<or> n2 - int j < n1 - int i)) \<longleftrightarrow>
          (0 \<le> r2 \<and> (r1 < 0 \<or> r2 < r1))"
        unfolding n1 n2 r1_def r2_def by (rule inline_choice)
      consider (del) "0 \<le> r1 \<and> (r2 < 0 \<or> r1 < r2)"
        | (ins) "\<not> (0 \<le> r1 \<and> (r2 < 0 \<or> r1 < r2))" "0 \<le> r2 \<and> (r1 < 0 \<or> r2 < r1)"
        | (sub) "\<not> (0 \<le> r1 \<and> (r2 < 0 \<or> r1 < r2))" "\<not> (0 \<le> r2 \<and> (r1 < 0 \<or> r2 < r1))"
        by blast
      then show ?thesis
      proof cases
        case del
        then have g: "0 \<le> n1 \<and> (n2 < 0 \<or> n1 - int i < n2 - int j)"
          using c1 by simp
        have ih: "inline_loop text1 text2 (i + 1, j, segments @ [Seg Removed [text1 ! i]]) =
            (segments @ [Seg Removed [text1 ! i]]) @
              inline_list (drop (i + 1) text1) (drop j text2)"
          using "1.hyps"(3) [OF run ni nj False n1 n2 g] both by simp
        have "inline_loop text1 text2 (i, j, segments) =
            inline_loop text1 text2 (i + 1, j, segments @ [Seg Removed [text1 ! i]])"
          using both False g
          by (subst inline_loop.simps) (auto simp: n1_def [symmetric] n2_def [symmetric] Let_def)
        also note ih
        finally show ?thesis
          using False del
          by (auto simp: inline_list_drop [OF both] r1_def [symmetric] r2_def [symmetric])
      next
        case ins
        then have g1: "\<not> (0 \<le> n1 \<and> (n2 < 0 \<or> n1 - int i < n2 - int j))"
          and g2: "0 \<le> n2 \<and> (n1 < 0 \<or> n2 - int j < n1 - int i)"
          using c1 c2 by simp_all
        have ih: "inline_loop text1 text2 (i, j + 1, segments @ [Seg Added [text2 ! j]]) =
            (segments @ [Seg Added [text2 ! j]]) @
              inline_list (drop i text1) (drop (j + 1) text2)"
          using "1.hyps"(4) [OF run ni nj False n1 n2 g1 g2] both by simp
        have "inline_loop text1 text2 (i, j, segments) =
            inline_loop text1 text2 (i, j + 1, segments @ [Seg Added [text2 ! j]])"
          using both False g1 g2
          by (subst inline_loop.simps) (auto simp: n1_def [symmetric] n2_def [symmetric] Let_def)
        also note ih
        finally show ?thesis
          using False ins
          by (auto simp: inline_list_drop [OF both] r1_def [symmetric] r2_def [symmetric])
      next
        case sub
        then have g1: "\<not> (0 \<le> n1 \<and> (n2 < 0 \<or> n1 - int i < n2 - int j))"
          and g2: "\<not> (0 \<le> n2 \<and> (n1 < 0 \<or> n2 - int j < n1 - int i))"
          using c1 c2 by simp_all
        have ih: "inline_loop text1 text2
              (i + 1, j + 1, segments @ [Seg Removed [text1 ! i], Seg Added [text2 ! j]]) =
            (segments @ [Seg Removed [text1 ! i], Seg Added [text2 ! j]]) @
              inline_list (drop (i + 1) text1) (drop (j + 1) text2)"
          using "1.hyps"(5) [OF run ni nj False n1 n2 g1 g2] both by simp
        have "inline_loop text1 text2 (i, j, segments) =
            inline_loop text1 text2
              (i + 1, j + 1, segments @ [Seg Removed [text1 ! i], Seg Added [text2 ! j]])"
          using both False g1 g2
          by (subst inline_loop.simps) (auto simp: n1_def [symmetric] n2_def [symmetric] Let_def)
        also note ih
        finally show ?thesis
          using False sub
          by (auto simp: inline_list_drop [OF both] r1_def [symmetric] r2_def [symmetric])
      qed
    qed
  qed
qed

lemma computeInlineDiff_list: "computeInlineDiff text1 text2 = inline_list text1 text2"
  by (simp add: computeInlineDiff_def inline_loop_list)

section \<open>Splitting and the length of a line diff\<close>

lemma js_split_nonempty: "js_split sep s \<noteq> []"
  by (subst js_split.simps) (simp split: list.splits)

lemma diff_list_length: "length xs \<le> length (diff_list xs ys)"
  by (induction xs ys rule: diff_list.induct) auto

lemma diff_list_same: "diff_list xs xs = map (Seg Unchanged) xs"
  by (induction xs) auto

section \<open>Reconstruction of the inputs\<close>

lemma js_join_Cons: "ls \<noteq> [] \<Longrightarrow> js_join sep (l # ls) = l @ sep # js_join sep ls"
  by (cases ls) auto

lemma js_join_split: "js_join sep (js_split sep s) = s"
proof (induction sep s rule: js_split.induct)
  case (1 sep s)
  show ?case
  proof (cases "dropWhile (\<lambda>c. c \<noteq> sep) s")
    case Nil
    show ?thesis
      by (subst js_split.simps) (simp add: Nil)
  next
    case (Cons x rest)
    have "x = sep"
      using hd_dropWhile [of "\<lambda>c. c \<noteq> sep" s] Cons by simp
    moreover have "s = takeWhile (\<lambda>c. c \<noteq> sep) s @ dropWhile (\<lambda>c. c \<noteq> sep) s"
      by simp
    ultimately have s: "s = takeWhile (\<lambda>c. c \<noteq> sep) s @ sep # rest"
      using Cons by simp
    have "js_join sep (js_split sep s) =
        takeWhile (\<lambda>c. c \<noteq> sep) s @ sep # js_join sep (js_split sep rest)"
      by (subst js_split.simps) (simp add: Cons js_join_Cons js_split_nonempty)
    also have "\<dots> = takeWhile (\<lambda>c. c \<noteq> sep) s @ sep # rest"
      using "1.IH" [OF Cons] by simp
    also have "\<dots> = s"
      using s by simp
    finally show ?thesis .
  qed
qed

lemma diff_list_first:
  "map seg_text (filter (\<lambda>s. seg_type s = Removed \<or> seg_type s = Unchanged)
     (diff_list xs ys)) = xs"
  by (induction xs ys rule: diff_list.induct) auto

lemma diff_list_second:
  "map seg_text (filter (\<lambda>s. seg_type s = Added \<or> seg_type s = Unchanged)
     (diff_list xs ys)) = ys"
  by (induction xs ys rule: diff_list.induct) auto

lemma lcp_drop1: "lcp xs ys @ drop (length (lcp xs ys)) xs = xs"
  using lcp_take1 [of xs ys] append_take_drop_id [of "length (lcp xs ys)" xs] by simp

lemma lcp_drop2: "lcp xs ys @ drop (length (lcp xs ys)) ys = ys"
  using lcp_take2 [of xs ys] append_take_drop_id [of "length (lcp xs ys)" ys] by simp

lemma inline_list_first:
  "concat (map seg_text (filter (\<lambda>s. seg_type s = Removed \<or> seg_type s = Unchanged)
     (inline_list xs ys))) = xs"
  by (induction xs ys rule: inline_list.induct) (auto simp: lcp_drop1)

lemma inline_list_second:
  "concat (map seg_text (filter (\<lambda>s. seg_type s = Added \<or> seg_type s = Unchanged)
     (inline_list xs ys))) = ys"
  by (induction xs ys rule: inline_list.induct) (auto simp: lcp_drop2)


text \<open>
  C1. For all strings \<open>text1\<close> and \<open>text2\<close>: joining with the newline, in order, the
  text of the segments of \<open>computeDiff(text1, text2)\<close> whose kind is removed or unchanged
  yields \<open>text1\<close>, and joining those whose kind is added or unchanged yields \<open>text2\<close>;
  for \<open>computeInlineDiff\<close> the plain concatenation of the removed-or-unchanged texts
  yields \<open>text1\<close> and that of the added-or-unchanged texts yields \<open>text2\<close>.
\<close>

theorem reconstruction:
  "js_join newline (map seg_text
      (filter (\<lambda>s. seg_type s = Removed \<or> seg_type s = Unchanged)
        (computeDiff text1 text2))) = text1 \<and>
   js_join newline (map seg_text
      (filter (\<lambda>s. seg_type s = Added \<or> seg_type s = Unchanged)
        (computeDiff text1 text2))) = text2 \<and>
   concat (map seg_text
      (filter (\<lambda>s. seg_type s = Removed \<or> seg_type s = Unchanged)
        (computeInlineDiff text1 text2))) = text1 \<and>
   concat (map seg_text
      (filter (\<lambda>s. seg_type s = Added \<or> seg_type s = Unchanged)
        (computeInlineDiff text1 text2))) = text2"
  by (simp add: computeDiff_list computeInlineDiff_list diff_list_first diff_list_second
      inline_list_first inline_list_second js_join_split)

section \<open>Results on concrete inputs\<close>

text \<open>
  C9. \<open>computeDiff("a\nb", "a\nx\nb")\<close> yields exactly the three segments
  unchanged \<open>a\<close>, added \<open>x\<close>, unchanged \<open>b\<close>, in that order.
\<close>

theorem computeDiff_pure_insertion:
  "computeDiff ''a\<newline>b'' ''a\<newline>x\<newline>b'' =
     [Seg Unchanged ''a'', Seg Added ''x'', Seg Unchanged ''b'']"
  by code_simp

text \<open>
  C10. For every pair of input strings \<open>computeDiff\<close> returns at least one segment, and
  \<open>computeDiff("", "")\<close> returns exactly one segment, unchanged with empty text: the
  empty string splits into one empty line.
\<close>

theorem computeDiff_at_least_one_segment:
  "1 \<le> length (computeDiff text1 text2) \<and> computeDiff [] [] = [Seg Unchanged []]"
proof
  have "1 \<le> length (js_split newline text1)"
    using js_split_nonempty [of newline text1] by (cases "js_split newline text1") auto
  also have "\<dots> \<le> length (computeDiff text1 text2)"
    unfolding computeDiff_list by (rule diff_list_length)
  finally show "1 \<le> length (computeDiff text1 text2)" .
  show "computeDiff [] [] = [Seg Unchanged []]"
    by code_simp
qed

text \<open>
  C2, as stated: \<open>computeDiff("", "")\<close> returns an empty sequence and
  \<open>getDiffStats("", "")\<close> returns similarity 1 with all five counters 0. This fails:
  the sequence is not empty and \<open>linesUnchanged\<close> is 1.
\<close>

theorem computeDiff_empty_inputs_not_empty:
  "\<not> (computeDiff [] [] = [] \<and>
      similarity (getDiffStats [] []) = 1 \<and>
      linesAdded (getDiffStats [] []) = 0 \<and>
      linesRemoved (getDiffStats [] []) = 0 \<and>
      linesUnchanged (getDiffStats [] []) = 0 \<and>
      charactersAdded (getDiffStats [] []) = 0 \<and>
      charactersRemoved (getDiffStats [] []) = 0)"
  by code_simp

text \<open>
  C2, amended: \<open>computeDiff("", "")\<close> returns the single segment unchanged \<open>""\<close>, and
  \<open>getDiffStats("", "")\<close> returns similarity 1, \<open>linesUnchanged\<close> 1 and the other four
  counters 0.
\<close>

theorem empty_inputs_one_unchanged_segment:
  "computeDiff [] [] = [Seg Unchanged []] \<and>
   getDiffStats [] [] =
     \<lparr> linesAdded = 0, linesRemoved = 0, linesUnchanged = 1,
       charactersAdded = 0, charactersRemoved = 0, similarity = 1 \<rparr>"
  by code_simp

text \<open>
  C8, as stated: \<open>computeInlineDiff("hello", "hallo")\<close> yields three segments. This
  fails: the removed/added pair is two segments, so the sequence has four.
\<close>

theorem computeInlineDiff_hello_hallo_not_three:
  "length (computeInlineDiff ''hello'' ''hallo'') \<noteq> 3"
  by code_simp

text \<open>
  C8, amended: \<open>computeInlineDiff("hello", "hallo")\<close> yields four segments: unchanged
  \<open>h\<close>, removed \<open>e\<close>, added \<open>a\<close>, unchanged \<open>llo\<close>.
\<close>

theorem computeInlineDiff_hello_hallo:
  "computeInlineDiff ''hello'' ''hallo'' =
     [Seg Unchanged ''h'', Seg Removed ''e'', Seg Added ''a'', Seg Unchanged ''llo'']"
  by code_simp

section \<open>Identity\<close>

text \<open>
  C6. For every string \<open>a\<close>, \<open>computeDiff(a, a)\<close> yields the lines of \<open>a\<close> (\<open>a\<close> split
  on the newline), one segment per line, all tagged unchanged; no removed or added
  segment appears.
\<close>

theorem computeDiff_identity:
  "computeDiff a a = map (Seg Unchanged) (js_split newline a)"
  by (simp add: computeDiff_list diff_list_same)

section \<open>The outcome of a mismatch\<close>

lemma indexOf_takeWhile:
  "indexOf xs x = (if x \<in> set xs then int (length (takeWhile (\<lambda>y. y \<noteq> x) xs)) else - 1)"
  by (induction xs) (auto simp: Let_def)

text \<open>
  C4, as stated: at a mismatch the paired substitution occurs exactly when neither line
  reappears later, and when both lines reappear at equal distances the tie-break emits
  a deletion. This fails: for the lines \<open>a, b\<close> against \<open>b, a\<close> both lines reappear, at
  the same distance, and the step is the paired substitution, not a deletion.
\<close>

theorem tie_is_substitution_not_deletion:
  "[''a'', ''b''] ! 0 \<noteq> [''b'', ''a''] ! 0 \<and>
   ''b'' \<in> set (drop 1 [''a'', ''b'']) \<and>
   ''a'' \<in> set (drop 1 [''b'', ''a'']) \<and>
   indexOf (drop 1 [''a'', ''b'']) ''b'' = 0 \<and>
   indexOf (drop 1 [''b'', ''a'']) ''a'' = 0 \<and>
   diff_step [''a'', ''b''] [''b'', ''a''] (0, 0, []) =
     (1, 1, [Seg Removed ''a'', Seg Added ''b'']) \<and>
   diff_step [''a'', ''b''] [''b'', ''a''] (0, 0, []) \<noteq> (1, 0, [Seg Removed ''a'']) \<and>
   computeDiff ''a\<newline>b'' ''b\<newline>a'' =
     [Seg Removed ''a'', Seg Added ''b'', Seg Removed ''b'', Seg Added ''a'']"
  by code_simp

text \<open>
  C4, amended: at a mismatch (the lines at the cursors \<open>i\<close> and \<open>j\<close> differ) the paired
  substitution, removed \<open>lines1[i]\<close> then added \<open>lines2[j]\<close> with both cursors
  advanced, occurs exactly when neither line reappears later or both reappear at equal
  distances. Otherwise the step is a deletion (removed, \<open>i\<close> advanced) when
  \<open>lines2[j]\<close> reappears in \<open>lines1[i+1..]\<close> and \<open>lines1[i]\<close> does not reappear in
  \<open>lines2[j+1..]\<close> or reappears strictly farther, and an insertion (added, \<open>j\<close>
  advanced) in the symmetric case. At equal distances the strict comparison favours
  neither: the substitution is emitted.
\<close>

theorem mismatch_outcomes:
  assumes "i < length lines1" and "j < length lines2" and "lines1 ! i \<noteq> lines2 ! j"
  defines "r1 \<equiv> reappears (lines2 ! j) (drop (i + 1) lines1)"
    and "r2 \<equiv> reappears (lines1 ! i) (drop (j + 1) lines2)"
    and "d1 \<equiv> distance (lines2 ! j) (drop (i + 1) lines1)"
    and "d2 \<equiv> distance (lines1 ! i) (drop (j + 1) lines2)"
  shows "diff_step lines1 lines2 (i, j, segments) =
      (if r1 \<and> r2 \<and> d1 = d2 \<or> \<not> r1 \<and> \<not> r2 then
         (i + 1, j + 1, segments @ [Seg Removed (lines1 ! i), Seg Added (lines2 ! j)])
       else if r1 \<and> (\<not> r2 \<or> d1 < d2) then
         (i + 1, j, segments @ [Seg Removed (lines1 ! i)])
       else (i, j + 1, segments @ [Seg Added (lines2 ! j)]))"
proof -
  have n1: "indexOf (drop (i + 1) lines1) (lines2 ! j) = (if r1 then int d1 else - 1)"
    by (simp add: indexOf_takeWhile r1_def d1_def reappears_def distance_def)
  have n2: "indexOf (drop (j + 1) lines2) (lines1 ! i) = (if r2 then int d2 else - 1)"
    by (simp add: indexOf_takeWhile r2_def d2_def reappears_def distance_def)
  show ?thesis
    using assms(1-3) unfolding diff_step_def Let_def prod.case n1 n2
    by auto
qed


theorem mismatch_outcomes_witness:
  "diff_step [''a'', ''b''] [''b'', ''a''] (0, 0, []) =
     (1, 1, [Seg Removed ''a'', Seg Added ''b'']) \<and>
   diff_step [''a'', ''b'', ''c''] [''c'', ''a''] (0, 0, []) =
     (0, 1, [Seg Added ''c''])"
  using mismatch_outcomes [of 0 "[''a'', ''b'']" 0 "[''b'', ''a'']" "[]"]
    mismatch_outcomes [of 0 "[''a'', ''b'', ''c'']" 0 "[''c'', ''a'']" "[]"]
  by (simp add: reappears_def distance_def)

section \<open>The character diff and the uncoalesced algorithm\<close>

lemma main_list_bounds:
  "main_list xs ys = (B, a, b) \<Longrightarrow>
   a \<le> length xs \<and> b \<le> length ys \<and> (a = length xs \<or> b = length ys)"
  by (induction xs ys arbitrary: B a b rule: main_list.induct)
     (auto split: if_splits prod.splits)

lemma diff_list_Nil1: "diff_list [] ys = map (Seg Added) ys"
  by (induction ys) auto

lemma diff_list_Nil2: "diff_list xs [] = map (Seg Removed) xs"
  by (induction xs) auto

lemma main_list_diff_list:
  "main_list xs ys = (B, a, b) \<Longrightarrow>
   diff_list xs ys = B @ map (Seg Removed) (drop a xs) @ map (Seg Added) (drop b ys)"
proof (induction xs ys arbitrary: B a b rule: main_list.induct)
  case (1 x xs y ys)
  then show ?case
    by (auto split: if_splits prod.splits)
qed (simp_all add: diff_list_Nil1 diff_list_Nil2)

lemma main_list_drop:
  assumes "i < length lines1" "j < length lines2"
  shows "main_list (drop i lines1) (drop j lines2) =
     (if lines1 ! i = lines2 ! j then
        (case main_list (drop (Suc i) lines1) (drop (Suc j) lines2) of
           (B, a, b) \<Rightarrow> (Seg Unchanged (lines1 ! i) # B, Suc a, Suc b))
      else if indexOf (drop (Suc i) lines1) (lines2 ! j) \<ge> 0 \<and>
          (indexOf (drop (Suc j) lines2) (lines1 ! i) < 0 \<or>
           indexOf (drop (Suc i) lines1) (lines2 ! j) <
             indexOf (drop (Suc j) lines2) (lines1 ! i)) then
        (case main_list (drop (Suc i) lines1) (drop j lines2) of
           (B, a, b) \<Rightarrow> (Seg Removed (lines1 ! i) # B, Suc a, b))
      else if indexOf (drop (Suc j) lines2) (lines1 ! i) \<ge> 0 \<and>
          (indexOf (drop (Suc i) lines1) (lines2 ! j) < 0 \<or>
           indexOf (drop (Suc j) lines2) (lines1 ! i) <
             indexOf (drop (Suc i) lines1) (lines2 ! j)) then
        (case main_list (drop i lines1) (drop (Suc j) lines2) of
           (B, a, b) \<Rightarrow> (Seg Added (lines2 ! j) # B, a, Suc b))
      else
        (case main_list (drop (Suc i) lines1) (drop (Suc j) lines2) of
           (B, a, b) \<Rightarrow>
             (Seg Removed (lines1 ! i) # Seg Added (lines2 ! j) # B, Suc a, Suc b)))"
proof -
  have d1: "lines1 ! i # drop (Suc i) lines1 = drop i lines1"
    using assms by (simp add: Cons_nth_drop_Suc)
  have d2: "lines2 ! j # drop (Suc j) lines2 = drop j lines2"
    using assms by (simp add: Cons_nth_drop_Suc)
  show ?thesis
    apply (subst (1) d1 [symmetric])
    apply (subst (1) d2 [symmetric])
    apply (simp only: main_list.simps)
    apply (simp only: d1 d2)
    done
qed

lemma diff_main_loop_list:
  "i \<le> length lines1 \<Longrightarrow> j \<le> length lines2 \<Longrightarrow>
   diff_main_loop lines1 lines2 (i, j, segments) =
     (case main_list (drop i lines1) (drop j lines2) of
        (B, a, b) \<Rightarrow> (i + a, j + b, segments @ B))"
proof (induction lines1 lines2 "(i, j, segments)" arbitrary: i j segments
       rule: diff_main_loop.induct)
  case (1 lines1 lines2 i j segments)
  show ?case
  proof (cases "i < length lines1 \<and> j < length lines2")
    case False
    then have "drop i lines1 = [] \<or> drop j lines2 = []"
      by auto
    then have "main_list (drop i lines1) (drop j lines2) = ([], 0, 0)"
      by (cases "drop i lines1") auto
    with False show ?thesis
      by (subst diff_main_loop.simps) auto
  next
    case True
    then have i: "i < length lines1" and j: "j < length lines2"
      by simp_all
    obtain i' j' segs' where step: "diff_step lines1 lines2 (i, j, segments) = (i', j', segs')"
      by (cases "diff_step lines1 lines2 (i, j, segments)") blast
    have unfold: "diff_main_loop lines1 lines2 (i, j, segments) =
        diff_main_loop lines1 lines2 (i', j', segs')"
      using True step by (subst diff_main_loop.simps) simp
    have le: "i' \<le> length lines1" "j' \<le> length lines2"
      using step i j by (auto simp: diff_step_def Let_def split: if_splits)
    have ih: "diff_main_loop lines1 lines2 (i', j', segs') =
        (case main_list (drop i' lines1) (drop j' lines2) of
           (B, a, b) \<Rightarrow> (i' + a, j' + b, segs' @ B))"
      using "1.hyps" [OF True step] le by simp
    show ?thesis
      unfolding unfold ih main_list_drop [OF i j]
      using step i j
      by (auto simp: diff_step_def Let_def split: if_splits prod.splits)
  qed
qed

lemma chars_simps [simp]:
  "chars [] = []" "chars (x # xs) = [x] # chars xs" "length (chars xs) = length xs"
  "drop n (chars xs) = chars (drop n xs)"
  by (simp_all add: chars_def drop_map)

lemma indexOf_chars: "indexOf (chars xs) [y] = indexOf xs y"
  by (induction xs) (auto simp: Let_def)

lemma merge_unchanged_other:
  "seg_type s \<noteq> Unchanged \<Longrightarrow> merge_unchanged (s # ss) = s # merge_unchanged ss"
  by (cases ss) auto

lemma merge_unchanged_stop:
  "ss = [] \<or> seg_type (hd ss) \<noteq> Unchanged \<Longrightarrow>
   merge_unchanged (Seg Unchanged acc # ss) = Seg Unchanged acc # merge_unchanged ss"
  by (cases ss) auto

lemma merge_unchanged_run:
  "ss = [] \<or> seg_type (hd ss) \<noteq> Unchanged \<Longrightarrow>
   merge_unchanged (Seg Unchanged acc # map (\<lambda>c. Seg Unchanged [c]) q @ ss) =
     Seg Unchanged (acc @ q) # merge_unchanged ss"
  by (induction q arbitrary: acc) (auto simp: merge_unchanged_stop)

lemma main_list_run:
  "main_list (chars (q @ xs)) (chars (q @ ys)) =
     (case main_list (chars xs) (chars ys) of
        (B, a, b) \<Rightarrow> (map (\<lambda>c. Seg Unchanged [c]) q @ B, length q + a, length q + b))"
  by (induction q) (auto split: prod.splits)

lemma main_list_head:
  "lcp xs ys = [] \<Longrightarrow> main_list (chars xs) (chars ys) = (B, a, b) \<Longrightarrow>
   B = [] \<or> seg_type (hd B) \<noteq> Unchanged"
  by (cases xs; cases ys) (auto split: if_splits prod.splits)

lemma lcp_drop_lcp:
  "lcp (drop (length (lcp xs ys)) xs) (drop (length (lcp xs ys)) ys) = []"
  by (induction xs ys rule: lcp.induct) auto

lemma inline_list_main_list:
  "inline_list xs ys =
     (case main_list (chars xs) (chars ys) of
        (B, a, b) \<Rightarrow>
          merge_unchanged B @
          (if a < length xs then [Seg Removed (drop a xs)] else []) @
          (if b < length ys then [Seg Added (drop b ys)] else []))"
proof (induction xs ys rule: inline_list.induct)
  case 1
  show ?case by simp
next
  case (2 y ys)
  show ?case by simp
next
  case (3 x xs)
  show ?case by simp
next
  case (4 x xs y ys)
  show ?case
  proof (cases "x = y")
    case True
    define p where "p = lcp xs ys"
    define xs' where "xs' = drop (length p) xs"
    define ys' where "ys' = drop (length p) ys"
    obtain B a b where m: "main_list (chars xs') (chars ys') = (B, a, b)"
      by (cases "main_list (chars xs') (chars ys')") auto
    have x: "x # xs = (x # p) @ xs'" and y: "y # ys = (x # p) @ ys'"
      using True by (simp_all add: p_def xs'_def ys'_def lcp_drop1 lcp_drop2)
    have "lcp xs' ys' = []"
      unfolding xs'_def ys'_def p_def by (rule lcp_drop_lcp)
    then have hd: "B = [] \<or> seg_type (hd B) \<noteq> Unchanged"
      using m by (rule main_list_head)
    have run: "main_list (chars (x # xs)) (chars (y # ys)) =
        (map (\<lambda>c. Seg Unchanged [c]) (x # p) @ B, length (x # p) + a, length (x # p) + b)"
      unfolding x y main_list_run m by simp
    have mu: "merge_unchanged (map (\<lambda>c. Seg Unchanged [c]) (x # p) @ B) =
        Seg Unchanged (x # p) # merge_unchanged B"
      using merge_unchanged_run [OF hd, of "[x]" p] by simp
    have ih: "inline_list xs' ys' =
        merge_unchanged B @
        (if a < length xs' then [Seg Removed (drop a xs')] else []) @
        (if b < length ys' then [Seg Added (drop b ys')] else [])"
      using "4.IH"(1) [OF True] m by (simp add: p_def xs'_def ys'_def)
    have l1: "length (x # xs) = length (x # p) + length xs'"
      by (subst x) simp
    have l2: "length (y # ys) = length (x # p) + length ys'"
      by (subst y) simp
    have dr1: "drop (length (x # p) + a) (x # xs) = drop a xs'"
      by (subst x) simp
    have dr2: "drop (length (x # p) + b) (y # ys) = drop b ys'"
      by (subst y) simp
    have "inline_list (x # xs) (y # ys) = Seg Unchanged (x # p) # inline_list xs' ys'"
      using True by (simp add: p_def xs'_def ys'_def)
    then show ?thesis
      unfolding run prod.case mu ih l1 l2 dr1 dr2 by simp
  next
    case False
    then have ne: "[x] \<noteq> [y]" by simp
    consider (del) "0 \<le> indexOf xs y \<and> (indexOf ys x < 0 \<or> indexOf xs y < indexOf ys x)"
      | (ins) "\<not> (0 \<le> indexOf xs y \<and> (indexOf ys x < 0 \<or> indexOf xs y < indexOf ys x))"
          "0 \<le> indexOf ys x \<and> (indexOf xs y < 0 \<or> indexOf ys x < indexOf xs y)"
      | (sub) "\<not> (0 \<le> indexOf xs y \<and> (indexOf ys x < 0 \<or> indexOf xs y < indexOf ys x))"
          "\<not> (0 \<le> indexOf ys x \<and> (indexOf xs y < 0 \<or> indexOf ys x < indexOf xs y))"
      by blast
    then show ?thesis
    proof cases
      case del
      obtain B a b where m: "main_list (chars xs) (chars (y # ys)) = (B, a, b)"
        by (cases "main_list (chars xs) (chars (y # ys))") auto
      have "main_list (chars (x # xs)) (chars (y # ys)) = (Seg Removed [x] # B, Suc a, b)"
        using False del m by (auto simp: indexOf_chars)
      moreover have "inline_list (x # xs) (y # ys) = Seg Removed [x] # inline_list xs (y # ys)"
        using False del by auto
      ultimately show ?thesis
        using "4.IH"(2) [OF False del] m by (simp add: merge_unchanged_other)
    next
      case ins
      obtain B a b where m: "main_list (chars (x # xs)) (chars ys) = (B, a, b)"
        by (cases "main_list (chars (x # xs)) (chars ys)") auto
      have "main_list (chars (x # xs)) (chars (y # ys)) = (Seg Added [y] # B, a, Suc b)"
        using False ins m by (auto simp: indexOf_chars)
      moreover have "inline_list (x # xs) (y # ys) = Seg Added [y] # inline_list (x # xs) ys"
        using False ins by auto
      ultimately show ?thesis
        using "4.IH"(3) [OF False ins] m by (simp add: merge_unchanged_other)
    next
      case sub
      obtain B a b where m: "main_list (chars xs) (chars ys) = (B, a, b)"
        by (cases "main_list (chars xs) (chars ys)") auto
      have "main_list (chars (x # xs)) (chars (y # ys)) =
          (Seg Removed [x] # Seg Added [y] # B, Suc a, Suc b)"
        using False sub m by (auto simp: indexOf_chars)
      moreover have "inline_list (x # xs) (y # ys) =
          Seg Removed [x] # Seg Added [y] # inline_list xs ys"
        using False sub by auto
      ultimately show ?thesis
        using "4.IH"(4) [OF False sub] m by (simp add: merge_unchanged_other)
    qed
  qed
qed

lemma map_Seg_chars: "map (Seg k) (chars s) = map (\<lambda>c. Seg k [c]) s"
  by (simp add: chars_def)

text \<open>
  C3, as stated: \<open>computeInlineDiff(text1, text2)\<close> is exactly the result of the
  uncoalesced character-by-character algorithm with each maximal run of adjacent
  unchanged segments merged, and no added or removed boundary differs. This fails: for
  \<open>""\<close> against \<open>"ab"\<close> the uncoalesced algorithm emits two added segments and
  \<open>computeInlineDiff\<close> one.
\<close>

theorem coalescing_moves_added_boundary:
  "computeInlineDiff [] ''ab'' = [Seg Added ''ab''] \<and>
   merge_unchanged (uncoalesced_diff [] ''ab'') = [Seg Added ''a'', Seg Added ''b''] \<and>
   computeInlineDiff [] ''ab'' \<noteq> merge_unchanged (uncoalesced_diff [] ''ab'')"
  by code_simp

text \<open>
  C3, amended: run the uncoalesced algorithm until one cursor reaches the end of its
  input, at cursors \<open>i\<close> and \<open>j\<close> with the segments pushed so far. The uncoalesced
  result is these segments followed by one single-character removed segment for each
  remaining character of \<open>text1\<close> or one single-character added segment for each
  remaining character of \<open>text2\<close>. \<open>computeInlineDiff(text1, text2)\<close> is exactly
  these segments with each maximal run of adjacent unchanged segments merged into one,
  followed by the whole remaining text as one removed or one added segment; no other
  added or removed boundary differs.
\<close>

theorem computeInlineDiff_coalesces:
  "(case diff_main_loop (chars text1) (chars text2) (0, 0, []) of
      (i, j, segments) \<Rightarrow>
        (i = length text1 \<or> j = length text2) \<and>
        uncoalesced_diff text1 text2 =
          segments @
          map (\<lambda>c. Seg Removed [c]) (drop i text1) @
          map (\<lambda>c. Seg Added [c]) (drop j text2) \<and>
        computeInlineDiff text1 text2 =
          merge_unchanged segments @
          (if i < length text1 then [Seg Removed (drop i text1)] else []) @
          (if j < length text2 then [Seg Added (drop j text2)] else []))"
proof -
  obtain B a b where m: "main_list (chars text1) (chars text2) = (B, a, b)"
    by (cases "main_list (chars text1) (chars text2)") auto
  have loop: "diff_main_loop (chars text1) (chars text2) (0, 0, []) = (a, b, B)"
    using diff_main_loop_list [of 0 "chars text1" 0 "chars text2" "[]"] m by simp
  have exhausted: "a = length text1 \<or> b = length text2"
    using main_list_bounds [OF m] by simp
  have "uncoalesced_diff text1 text2 = diff_list (chars text1) (chars text2)"
    by (simp add: uncoalesced_diff_def diff_loop_list)
  also have "\<dots> =
      B @ map (Seg Removed) (drop a (chars text1)) @ map (Seg Added) (drop b (chars text2))"
    using m by (rule main_list_diff_list)
  finally have unc: "uncoalesced_diff text1 text2 =
      B @ map (\<lambda>c. Seg Removed [c]) (drop a text1) @ map (\<lambda>c. Seg Added [c]) (drop b text2)"
    by (simp add: map_Seg_chars)
  have inl: "computeInlineDiff text1 text2 =
      merge_unchanged B @
      (if a < length text1 then [Seg Removed (drop a text1)] else []) @
      (if b < length text2 then [Seg Added (drop b text2)] else [])"
    using m by (simp add: computeInlineDiff_list inline_list_main_list)
  show ?thesis
    unfolding loop prod.case using exhausted unc inl by blast
qed

section \<open>Rounding to the nearest double\<close>

lemma bitlen_pos_bounds:
  assumes "0 < (a::int)"
  shows "(2::rat) powi (bitlen a - 1) \<le> of_int a" and "of_int a < (2::rat) powi bitlen a"
proof -
  have b: "2 ^ nat (bitlen a - 1) \<le> a" "a < 2 ^ nat (bitlen a)"
    using bitlen_bounds [OF assms] by simp_all
  have pos: "1 \<le> bitlen a"
    using assms bitlen_eq_zero_iff [of a] bitlen_nonneg [of a] by linarith
  have "(2::rat) powi (bitlen a - 1) = 2 ^ nat (bitlen a - 1)"
    using pos by (simp add: power_int_def)
  also have "\<dots> = of_int (2 ^ nat (bitlen a - 1))"
    by simp
  also have "\<dots> \<le> of_int a"
    using b(1) by (simp only: of_int_le_iff)
  finally show "(2::rat) powi (bitlen a - 1) \<le> of_int a" .
  have "(of_int a :: rat) < of_int (2 ^ nat (bitlen a))"
    using b(2) by (simp only: of_int_less_iff)
  also have "\<dots> = 2 ^ nat (bitlen a)"
    by simp
  also have "\<dots> = (2::rat) powi bitlen a"
    using pos by (simp add: power_int_def)
  finally show "of_int a < (2::rat) powi bitlen a" .
qed

lemma ilog2_bounds:
  assumes "0 < q"
  shows "2 powi ilog2 q \<le> q" and "q < 2 powi (ilog2 q + 1)"
proof -
  obtain a b where ab: "quotient_of q = (a, b)"
    by (cases "quotient_of q") auto
  have b: "0 < b" using ab by (rule quotient_of_denom_pos)
  have q: "q = of_int a / of_int b" using ab by (rule quotient_of_div)
  have a: "0 < a"
    using assms b unfolding q by (simp add: zero_less_divide_iff)
  define k where "k = bitlen a - bitlen b"
  have il: "ilog2 q = (if 2 powi k \<le> q then k else k - 1)"
    by (simp add: ilog2_def ab k_def)
  have up: "q < 2 powi (k + 1)"
  proof -
    have "q * of_int b = of_int a" using b by (simp add: q)
    also have "\<dots> < 2 powi bitlen a" using a by (rule bitlen_pos_bounds)
    also have "\<dots> = 2 powi (k + 1) * 2 powi (bitlen b - 1)"
      by (simp add: k_def power_int_add [symmetric])
    also have "\<dots> \<le> 2 powi (k + 1) * of_int b"
      using bitlen_pos_bounds(1) [OF b] by (simp add: mult_left_mono)
    finally show ?thesis using b by simp
  qed
  have lo: "2 powi (k - 1) < q"
  proof -
    have "2 powi (k - 1) * of_int b < 2 powi (k - 1) * (2::rat) powi bitlen b"
      using bitlen_pos_bounds(2) [OF b] by (simp add: mult_strict_left_mono)
    also have "\<dots> = 2 powi (bitlen a - 1)"
      by (simp add: k_def power_int_add [symmetric])
    also have "\<dots> \<le> of_int a" using a by (rule bitlen_pos_bounds)
    also have "\<dots> = q * of_int b" using b by (simp add: q)
    finally show ?thesis using b by simp
  qed
  show "2 powi ilog2 q \<le> q"
    using lo by (simp add: il)
  show "q < 2 powi (ilog2 q + 1)"
    using up by (simp add: il not_le)
qed

lemma round_even_error: "\<bar>of_int (round_even x) - x\<bar> \<le> 1 / 2"
  unfolding round_even_def Let_def by (auto simp: abs_if) linarith+

lemma round_even_le: "x \<le> of_int n \<Longrightarrow> round_even x \<le> n"
  unfolding round_even_def Let_def
  by (auto simp: floor_le_iff)

lemma round_even_ge: "of_int n \<le> x \<Longrightarrow> n \<le> round_even x"
  unfolding round_even_def Let_def
  by (auto simp: le_floor_iff) linarith+

lemma ulp_pos: "0 < ulp q"
  by (simp add: ulp_def)

lemma fl_ulp: "q \<noteq> 0 \<Longrightarrow> fl q = of_int (round_even (q / ulp q)) * ulp q"
  by (simp add: fl_def ulp_def Let_def)

lemma fl_nonneg: "0 \<le> q \<Longrightarrow> 0 \<le> fl q"
proof (cases "q = 0")
  case True
  then show ?thesis by (simp add: fl_def)
next
  case False
  assume "0 \<le> q"
  then have "of_int 0 \<le> q / ulp q"
    using ulp_pos [of q] by simp
  then have "0 \<le> round_even (q / ulp q)"
    by (rule round_even_ge)
  then show ?thesis
    using ulp_pos [of q] False by (simp add: fl_ulp)
qed

lemma ulp_le: "0 < q \<Longrightarrow> ulp q \<le> q / 2 ^ 52"
proof -
  assume q: "0 < q"
  have "ulp q = 2 powi ilog2 q / 2 ^ 52"
    using q by (simp add: ulp_def power_int_diff)
  also have "\<dots> \<le> q / 2 ^ 52"
    using ilog2_bounds(1) [OF q] by (simp add: divide_right_mono)
  finally show ?thesis .
qed

lemma fl_error:
  assumes "0 < q"
  shows "\<bar>fl q - q\<bar> \<le> q / 2 ^ 53"
proof -
  define m where "m = q / ulp q"
  have q: "q = m * ulp q"
    using ulp_pos [of q] by (simp add: m_def)
  have "fl q - q = (of_int (round_even m) - m) * ulp q"
    using assms by (subst q) (simp add: fl_ulp m_def algebra_simps)
  then have "\<bar>fl q - q\<bar> = \<bar>of_int (round_even m) - m\<bar> * ulp q"
    using ulp_pos [of q] by (simp add: abs_mult)
  also have "\<dots> \<le> 1 / 2 * ulp q"
    using round_even_error [of m] ulp_pos [of q] by (simp add: mult_right_mono)
  also have "\<dots> \<le> 1 / 2 * (q / 2 ^ 52)"
    using ulp_le [OF assms] by simp
  also have "\<dots> = q / 2 ^ 53"
    by simp
  finally show ?thesis .
qed

lemma fl_le_int:
  assumes "0 < q" and "q \<le> of_int c" and "c < 2 ^ 53"
  shows "fl q \<le> of_int c"
proof -
  define e where "e = ilog2 q"
  have "2 powi e \<le> q"
    unfolding e_def using assms(1) by (rule ilog2_bounds)
  also have "q \<le> of_int c" by fact
  also have "(of_int c :: rat) < of_int (2 ^ 53)"
    using assms(3) by (simp only: of_int_less_iff)
  finally have lt: "(2::rat) powi e < 2 powi 53"
    by simp
  have e: "e < 53"
  proof (rule ccontr)
    assume "\<not> e < 53"
    then have "53 \<le> e" by simp
    then have "(2::rat) powi 53 \<le> 2 powi e"
      by (intro power_int_increasing) simp_all
    with lt show False by simp
  qed
  define N :: int where "N = 2 ^ nat (52 - e)"
  have u: "ulp q = 1 / of_int N"
    using e assms(1) by (simp add: ulp_def e_def [symmetric] N_def power_int_def field_simps)
  have N: "0 < N" by (simp add: N_def)
  have "q / ulp q = q * of_int N"
    by (simp add: u)
  also have "\<dots> \<le> of_int c * of_int N"
    using assms(2) N by (simp add: mult_right_mono)
  finally have "q / ulp q \<le> of_int (c * N)"
    by simp
  then have "round_even (q / ulp q) \<le> c * N"
    by (rule round_even_le)
  then have "(of_int (round_even (q / ulp q)) :: rat) \<le> of_int (c * N)"
    by (simp only: of_int_le_iff)
  then have "of_int (round_even (q / ulp q)) * ulp q \<le> of_int (c * N) * ulp q"
    using ulp_pos [of q] by (simp add: mult_right_mono)
  also have "\<dots> = of_int c"
    using N by (simp add: u)
  finally show ?thesis
    using assms(1) by (simp add: fl_ulp)
qed

text \<open>The model agrees with the doubles of the host language on known values.\<close>

lemma fl_examples:
  "fl (1 / 10) = 3602879701896397 / 36028797018963968"
  "fl (57 / 100) = 5134103575202365 / 9007199254740992"
  "js_mul (js_div 46 80) 100 = 8092405580431359 / 140737488355328"
  by code_simp+

section \<open>Properties of the statistics\<close>

lemma fl_le_int0:
  assumes "0 \<le> q" and "q \<le> of_int c" and "c < 2 ^ 53"
  shows "fl q \<le> of_int c"
proof (cases "q = 0")
  case True
  then show ?thesis using assms(2) by (simp add: fl_def)
next
  case False
  then have "0 < q" using assms(1) by simp
  then show ?thesis using assms(2,3) by (rule fl_le_int)
qed

lemma fl_unit: "0 \<le> q \<Longrightarrow> q \<le> 1 \<Longrightarrow> 0 \<le> fl q \<and> fl q \<le> 1"
  using fl_nonneg [of q] fl_le_int0 [of q 1] by simp

lemma fl_hundred: "0 \<le> q \<Longrightarrow> q \<le> 100 \<Longrightarrow> 0 \<le> fl q \<and> fl q \<le> 100"
  using fl_nonneg [of q] fl_le_int0 [of q 100] by simp

lemma Math_round_hundred:
  "0 \<le> y \<Longrightarrow> y \<le> 100 \<Longrightarrow> 0 \<le> Math_round y \<and> Math_round y \<le> 100"
proof -
  assume y: "0 \<le> y" "y \<le> 100"
  have "0 \<le> \<lfloor>y + 1 / 2\<rfloor>"
    using y by (simp add: le_floor_iff)
  moreover have "\<lfloor>y + 1 / 2\<rfloor> \<le> 100"
    using y by (simp add: floor_le_iff)
  ultimately have "(0::rat) \<le> of_int \<lfloor>y + 1 / 2\<rfloor>" "(of_int \<lfloor>y + 1 / 2\<rfloor> :: rat) \<le> of_int 100"
    by (simp_all only: of_int_le_iff of_int_0_le_iff)
  then show ?thesis by (simp add: Math_round_def)
qed

lemma similarity_of_bounds:
  assumes "u * 2 \<le> t"
  shows "0 \<le> similarity_of u t \<and> similarity_of u t \<le> 1"
proof -
  define s where "s = (if t > 0 then js_div (of_nat (u * 2)) (of_nat t) else (1::rat))"
  have s: "0 \<le> s \<and> s \<le> 1"
  proof (cases "t > 0")
    case False
    then show ?thesis by (simp add: s_def)
  next
    case True
    have "(of_nat (u * 2) :: rat) \<le> of_nat t"
      using assms by (simp only: of_nat_le_iff)
    then have "0 \<le> (of_nat (u * 2) :: rat) / of_nat t" "(of_nat (u * 2) :: rat) / of_nat t \<le> 1"
      using True by (simp_all add: divide_le_eq_1)
    then show ?thesis
      using True fl_unit by (simp add: s_def js_div_def)
  qed
  then have "0 \<le> s * 100" "s * 100 \<le> 100" by simp_all
  then have y: "0 \<le> js_mul s 100 \<and> js_mul s 100 \<le> 100"
    unfolding js_mul_def by (rule fl_hundred)
  define k where "k = Math_round (js_mul s 100)"
  have "0 \<le> k \<and> k \<le> 100"
    unfolding k_def using y by (simp add: Math_round_hundred)
  then have "0 \<le> k / 100" "k / 100 \<le> 1" by simp_all
  then have "0 \<le> js_div k 100 \<and> js_div k 100 \<le> 1"
    unfolding js_div_def by (rule fl_unit)
  then show ?thesis
    by (simp add: similarity_of_def s_def k_def)
qed

lemma foldl_add_length:
  "foldl (\<lambda>sum s. sum + length (seg_text s)) a xs =
     a + sum_list (map (\<lambda>s. length (seg_text s)) xs)"
  by (induction xs arbitrary: a) auto

lemma similarity_getDiffStats:
  "similarity (getDiffStats text1 text2) =
     similarity_of (unchanged_length (computeDiff text1 text2)) (length text1 + length text2)"
  by (simp add: getDiffStats_def Let_def similarity_of_def unchanged_length_def
      foldl_add_length split: prod.splits)

lemma unchanged_length_first:
  "unchanged_length (diff_list xs ys) \<le> sum_list (map length xs)"
  unfolding unchanged_length_def
  by (induction xs ys rule: diff_list.induct) auto

lemma unchanged_length_second:
  "unchanged_length (diff_list xs ys) \<le> sum_list (map length ys)"
  unfolding unchanged_length_def
  by (induction xs ys rule: diff_list.induct) auto

lemma js_split_length: "sum_list (map length (js_split sep s)) \<le> length s"
proof (induction sep s rule: js_split.induct)
  case (1 sep s)
  show ?case
  proof (cases "dropWhile (\<lambda>c. c \<noteq> sep) s")
    case Nil
    show ?thesis
      by (subst js_split.simps) (simp add: Nil)
  next
    case (Cons x rest)
    have "length s = length (takeWhile (\<lambda>c. c \<noteq> sep) s) + length (dropWhile (\<lambda>c. c \<noteq> sep) s)"
      by (metis length_append takeWhile_dropWhile_id)
    then have "length s = length (takeWhile (\<lambda>c. c \<noteq> sep) s) + Suc (length rest)"
      by (simp only: Cons list.size)
    moreover have "sum_list (map length (js_split sep rest)) \<le> length rest"
      using "1.IH" [OF Cons] .
    ultimately show ?thesis
      by (subst js_split.simps) (simp add: Cons)
  qed
qed

lemma unchanged_length_computeDiff:
  "unchanged_length (computeDiff text1 text2) * 2 \<le> length text1 + length text2"
proof -
  have "unchanged_length (computeDiff text1 text2) \<le> length text1"
    unfolding computeDiff_list
    using unchanged_length_first [of "js_split newline text1" "js_split newline text2"]
      js_split_length [of newline text1] by linarith
  moreover have "unchanged_length (computeDiff text1 text2) \<le> length text2"
    unfolding computeDiff_list
    using unchanged_length_second [of "js_split newline text1" "js_split newline text2"]
      js_split_length [of newline text2] by linarith
  ultimately show ?thesis by linarith
qed


text \<open>
  C7. For all strings \<open>a\<close> and \<open>b\<close>, the similarity of \<open>getDiffStats(a, b)\<close> is at
  least 0 and at most 1.
\<close>

theorem similarity_bounds:
  "0 \<le> similarity (getDiffStats a b) \<and> similarity (getDiffStats a b) \<le> 1"
  unfolding similarity_getDiffStats
  using unchanged_length_computeDiff by (rule similarity_of_bounds)

lemma fl_error_unit:
  assumes "0 \<le> q" "q \<le> c" 
  shows "\<bar>fl q - q\<bar> \<le> c / 2 ^ 53"
proof (cases "q = 0")
  case True
  then show ?thesis using assms by (simp add: fl_def)
next
  case False
  then have "0 < q" using assms by simp
  then have "\<bar>fl q - q\<bar> \<le> q / 2 ^ 53" by (rule fl_error)
  also have "\<dots> \<le> c / 2 ^ 53" using assms(2) by (simp add: divide_right_mono)
  finally show ?thesis .
qed

lemma fraction_gap:
  fixes m d :: int
  assumes "0 < d"
  defines "z \<equiv> (of_int m / of_int d :: rat)"
  shows "z = of_int \<lfloor>z\<rfloor> \<or>
    (of_int \<lfloor>z\<rfloor> + 1 / of_int d \<le> z \<and> z \<le> of_int \<lfloor>z\<rfloor> + 1 - 1 / of_int d)"
proof -
  have fl: "\<lfloor>z\<rfloor> = m div d"
    unfolding z_def by (rule floor_divide_of_int_eq)
  have "m = (m div d) * d + m mod d" by simp
  then have "(of_int m :: rat) = of_int (m div d) * of_int d + of_int (m mod d)"
    by (metis of_int_add of_int_mult)
  then have z: "z = of_int (m div d) + of_int (m mod d) / of_int d"
    using assms(1) by (simp add: z_def field_simps)
  show ?thesis
  proof (cases "m mod d = 0")
    case True
    then show ?thesis using z fl by simp
  next
    case False
    have "0 \<le> m mod d" "m mod d < d"
      using assms(1) by simp_all
    then have "1 \<le> m mod d" "m mod d \<le> d - 1"
      using False by simp_all
    then have "(of_int 1 :: rat) \<le> of_int (m mod d)" "(of_int (m mod d) :: rat) \<le> of_int (d - 1)"
      by (simp_all only: of_int_le_iff)
    then have "1 / of_int d \<le> (of_int (m mod d) :: rat) / of_int d"
      "(of_int (m mod d) :: rat) / of_int d \<le> (of_int d - 1) / of_int d"
      using assms(1) by (simp_all add: divide_right_mono)
    moreover have "((of_int d :: rat) - 1) / of_int d = 1 - 1 / of_int d"
      using assms(1) by (simp add: field_simps)
    ultimately show ?thesis
      using z fl by simp
  qed
qed

lemma similarity_round:
  fixes u t :: nat
  assumes "0 < t" and "u * 2 \<le> t" and "t < 2 ^ 32"
  defines "r \<equiv> (of_nat (200 * u) / of_nat t :: rat)"
  defines "p \<equiv> js_mul (js_div (of_nat (u * 2)) (of_nat t)) 100"
  defines "k \<equiv> \<lfloor>p + 1 / 2\<rfloor>"
  shows "k =
    (if r + 1 / 2 = of_int \<lfloor>r + 1 / 2\<rfloor> \<and> p < r
     then \<lfloor>r + 1 / 2\<rfloor> - 1 else \<lfloor>r + 1 / 2\<rfloor>)"
proof -
  define q :: rat where "q = of_nat (u * 2) / of_nat t"
  define x where "x = fl q"
  define y where "y = fl (x * 100)"
  have "(of_nat (u * 2) :: rat) \<le> of_nat t"
    using assms(2) by (simp only: of_nat_le_iff)
  then have q01: "0 \<le> q" "q \<le> 1"
    using assms(1) by (simp_all add: q_def divide_le_eq_1)
  have rq: "r = 100 * q"
    by (simp add: r_def q_def)
  have x01: "0 \<le> x" "x \<le> 1"
    using fl_unit [OF q01] by (simp_all add: x_def)
  have ex: "\<bar>x - q\<bar> \<le> 1 / 2 ^ 53"
    unfolding x_def using q01 by (rule fl_error_unit)
  have "0 \<le> x * 100" "x * 100 \<le> 100"
    using x01 by simp_all
  then have ey: "\<bar>y - x * 100\<bar> \<le> 100 / 2 ^ 53"
    unfolding y_def by (rule fl_error_unit)
  define eps :: rat where "eps = 200 / 2 ^ 53"
  have "\<bar>y - r\<bar> = \<bar>(y - x * 100) + 100 * (x - q)\<bar>"
    by (simp add: rq algebra_simps)
  also have "\<dots> \<le> \<bar>y - x * 100\<bar> + \<bar>100 * (x - q)\<bar>"
    by (rule abs_triangle_ineq)
  also have "\<dots> = \<bar>y - x * 100\<bar> + 100 * \<bar>x - q\<bar>"
    by (simp only: abs_mult abs_numeral)
  also have "\<dots> \<le> 100 / 2 ^ 53 + 100 * (1 / 2 ^ 53)"
    using ex ey by (intro add_mono mult_left_mono) simp_all
  also have "\<dots> = eps"
    by (simp add: eps_def)
  finally have "\<bar>y - r\<bar> \<le> eps" .
  then have err: "r - eps \<le> y" "y \<le> r + eps"
    unfolding abs_le_iff by linarith+
  have eps1: "eps < 1"
    by (simp add: eps_def)
  have p: "p = y"
    by (simp add: p_def y_def x_def q_def js_mul_def js_div_def)
  have k: "k = \<lfloor>y + 1 / 2\<rfloor>"
    by (simp add: k_def p)
  define d :: int where "d = int (2 * t)"
  define m :: int where "m = int (400 * u + t)"
  have d: "0 < d" using assms(1) by (simp add: d_def)
  have z: "r + 1 / 2 = of_int m / of_int d"
    using assms(1) by (simp add: r_def m_def d_def field_simps)
  have "d < 2 ^ 33"
    using assms(3) by (simp add: d_def)
  then have "(of_int d :: rat) < of_int (2 ^ 33)"
    by (simp only: of_int_less_iff)
  then have "(of_int d :: rat) < 2 ^ 33" by simp
  then have "1 / 2 ^ 33 < 1 / (of_int d :: rat)"
    using d by (simp add: field_simps)
  then have gap: "eps < 1 / (of_int d :: rat)"
    by (simp add: eps_def)
  define n where "n = \<lfloor>r + 1 / 2\<rfloor>"
  from fraction_gap [OF d, of m]
  consider (tie) "r + 1 / 2 = of_int n"
    | (off) "of_int n + 1 / of_int d \<le> r + 1 / 2" "r + 1 / 2 \<le> of_int n + 1 - 1 / of_int d"
    unfolding z [symmetric] n_def by blast
  then show ?thesis
  proof cases
    case tie
    have a: "of_int (n - 1) \<le> y + 1 / 2" and b: "y + 1 / 2 < of_int (n + 1)"
      using tie err eps1 by simp_all
    from a have lo: "n - 1 \<le> \<lfloor>y + 1 / 2\<rfloor>"
      by (simp only: le_floor_iff)
    from b have hi: "\<lfloor>y + 1 / 2\<rfloor> < n + 1"
      by (simp only: floor_less_iff)
    have tie': "r + 1 / 2 = of_int \<lfloor>r + 1 / 2\<rfloor>"
      using tie unfolding n_def .
    show ?thesis
    proof (cases "y < r")
      case True
      then have "y + 1 / 2 < of_int n"
        using tie by simp
      then have "\<lfloor>y + 1 / 2\<rfloor> < n"
        by (simp only: floor_less_iff)
      with lo have "k = n - 1"
        unfolding k by linarith
      then show ?thesis
        using True tie' unfolding p n_def by simp
    next
      case False
      then have "of_int n \<le> y + 1 / 2"
        using tie by simp
      then have "n \<le> \<lfloor>y + 1 / 2\<rfloor>"
        by (simp only: le_floor_iff)
      with hi have "k = n"
        unfolding k by linarith
      then show ?thesis
        using False unfolding p n_def by simp
    qed
  next
    case off
    have "of_int n \<le> y + 1 / 2" "y + 1 / 2 < of_int n + 1"
      using off err gap by linarith+
    then have kn: "\<lfloor>y + 1 / 2\<rfloor> = n"
      by (simp add: floor_eq_iff)
    have "r + 1 / 2 \<noteq> of_int n"
    proof
      assume "r + 1 / 2 = of_int n"
      with off(1) have "1 / (of_int d :: rat) \<le> 0" by simp
      with d show False by simp
    qed
    then show ?thesis
      using kn unfolding k n_def by simp
  qed
qed

lemma foldl_count_segment:
  "foldl count_segment (la, lr, lu, ca, cr) diff =
     (la + length (filter (\<lambda>s. seg_type s = Added) diff),
      lr + length (filter (\<lambda>s. seg_type s = Removed) diff),
      lu + length (filter (\<lambda>s. seg_type s = Unchanged) diff),
      ca + sum_list (map (\<lambda>s. length (seg_text s)) (filter (\<lambda>s. seg_type s = Added) diff)),
      cr + sum_list (map (\<lambda>s. length (seg_text s)) (filter (\<lambda>s. seg_type s = Removed) diff)))"
proof (induction diff arbitrary: la lr lu ca cr)
  case Nil
  show ?case by simp
next
  case (Cons s diff)
  show ?case
    by (cases "seg_type s") (simp_all add: Cons.IH)
qed

lemma getDiffStats_counters:
  "linesAdded (getDiffStats text1 text2) =
     length (filter (\<lambda>s. seg_type s = Added) (computeDiff text1 text2))"
  "linesRemoved (getDiffStats text1 text2) =
     length (filter (\<lambda>s. seg_type s = Removed) (computeDiff text1 text2))"
  "linesUnchanged (getDiffStats text1 text2) =
     length (filter (\<lambda>s. seg_type s = Unchanged) (computeDiff text1 text2))"
  "charactersAdded (getDiffStats text1 text2) =
     sum_list (map (\<lambda>s. length (seg_text s))
       (filter (\<lambda>s. seg_type s = Added) (computeDiff text1 text2)))"
  "charactersRemoved (getDiffStats text1 text2) =
     sum_list (map (\<lambda>s. length (seg_text s))
       (filter (\<lambda>s. seg_type s = Removed) (computeDiff text1 text2)))"
  by (simp_all add: getDiffStats_def Let_def foldl_count_segment)

lemma similarity_of_round:
  assumes "t < 2 ^ 32" and "u * 2 \<le> t"
  defines "r \<equiv> (if t > 0 then of_nat (200 * u) / of_nat t else 100 :: rat)"
  shows "similarity_of u t =
    fl (of_int
      (if r + 1 / 2 = of_int \<lfloor>r + 1 / 2\<rfloor> \<and> double_product u t < r
       then \<lfloor>r + 1 / 2\<rfloor> - 1 else \<lfloor>r + 1 / 2\<rfloor>) / 100)"
proof (cases "t > 0")
  case False
  have "fl 100 = 100" by code_simp
  moreover have "\<lfloor>(100::rat) + 1 / 2\<rfloor> = 100" by (simp add: floor_eq_iff)
  ultimately show ?thesis
    using False
    by (simp add: similarity_of_def double_product_def r_def js_mul_def js_div_def
        Math_round_def)
next
  case True
  have sim: "similarity_of u t = fl (of_int \<lfloor>double_product u t + 1 / 2\<rfloor> / 100)"
    by (simp add: similarity_of_def double_product_def Math_round_def js_div_def)
  have r: "r = of_nat (200 * u) / of_nat t"
    using True by (simp add: r_def)
  have p: "double_product u t = js_mul (js_div (of_nat (u * 2)) (of_nat t)) 100"
    using True by (simp add: double_product_def)
  show ?thesis
    unfolding sim r using similarity_round [OF True assms(2,1)] unfolding p by simp
qed

text \<open>
  C5, as stated: the similarity is the exact ratio (twice the unchanged length over the
  total length) rounded to two decimal places, halves up. This fails: with 23 unchanged
  characters of 80 the ratio is 0.575, which rounds half up to 0.58, but the double
  product \<open>0.575 * 100\<close> is 57.49999999999999 and the result is the double 0.57.
\<close>

theorem similarity_tie_rounds_down:
  "unchanged_length
     (computeDiff ''aaaaaaaaaaaaaaaaaaaaaaa\<newline>bbbbbbbbbbbbbbbb''
        ''aaaaaaaaaaaaaaaaaaaaaaa\<newline>cccccccccccccccc'') = 23 \<and>
   length ''aaaaaaaaaaaaaaaaaaaaaaa\<newline>bbbbbbbbbbbbbbbb'' +
     length ''aaaaaaaaaaaaaaaaaaaaaaa\<newline>cccccccccccccccc'' = 80 \<and>
   (of_int \<lfloor>(2 * 23 / 80 :: rat) * 100 + 1 / 2\<rfloor> / 100 :: rat) = 58 / 100 \<and>
   similarity
     (getDiffStats ''aaaaaaaaaaaaaaaaaaaaaaa\<newline>bbbbbbbbbbbbbbbb''
        ''aaaaaaaaaaaaaaaaaaaaaaa\<newline>cccccccccccccccc'') = fl (57 / 100) \<and>
   fl (57 / 100) < 575 / 1000 \<and>
   fl (57 / 100) \<noteq> fl (58 / 100)"
  by code_simp

text \<open>
  C5, amended: for inputs whose lengths sum to less than \<open>2 ^ 32\<close>,
  \<open>getDiffStats(text1, text2)\<close> is computed from the line diff
  \<open>computeDiff(text1, text2)\<close>; \<open>linesAdded\<close>, \<open>linesRemoved\<close> and \<open>linesUnchanged\<close>
  are the numbers of added, removed and unchanged segments; \<open>charactersAdded\<close> and
  \<open>charactersRemoved\<close> are the summed text lengths of the added and removed segments;
  and the similarity is the double nearest \<open>k / 100\<close>, where \<open>k\<close> is \<open>r\<close> rounded to
  the nearest integer, halves up, for \<open>r\<close> = 100 times the exact ratio (twice the
  summed unchanged length over the total length, or 1 when both inputs are empty),
  with one exception: when \<open>r\<close> lies exactly halfway between two integers and the
  double product \<open>similarity * 100\<close> is below \<open>r\<close>, \<open>k\<close> is the lower of the two.
\<close>

theorem getDiffStats_counts_and_similarity:
  assumes "length text1 + length text2 < 2 ^ 32"
  defines "diff \<equiv> computeDiff text1 text2"
    and "stats \<equiv> getDiffStats text1 text2"
  defines "r \<equiv>
     (if length text1 + length text2 > 0
      then of_nat (200 * unchanged_length diff) / of_nat (length text1 + length text2)
      else 100 :: rat)"
    and "p \<equiv> double_product (unchanged_length diff) (length text1 + length text2)"
  shows "linesAdded stats = length (filter (\<lambda>s. seg_type s = Added) diff) \<and>
    linesRemoved stats = length (filter (\<lambda>s. seg_type s = Removed) diff) \<and>
    linesUnchanged stats = length (filter (\<lambda>s. seg_type s = Unchanged) diff) \<and>
    charactersAdded stats =
      sum_list (map (\<lambda>s. length (seg_text s)) (filter (\<lambda>s. seg_type s = Added) diff)) \<and>
    charactersRemoved stats =
      sum_list (map (\<lambda>s. length (seg_text s)) (filter (\<lambda>s. seg_type s = Removed) diff)) \<and>
    similarity stats =
      fl (of_int
        (if r + 1 / 2 = of_int \<lfloor>r + 1 / 2\<rfloor> \<and> p < r
         then \<lfloor>r + 1 / 2\<rfloor> - 1 else \<lfloor>r + 1 / 2\<rfloor>) / 100)"
  unfolding stats_def diff_def r_def p_def getDiffStats_counters similarity_getDiffStats
  using similarity_of_round [OF assms(1) unchanged_length_computeDiff]
  by simp

theorem getDiffStats_counts_and_similarity_witness:
  "linesAdded (getDiffStats ''a\<newline>bbbbbb'' ''a\<newline>cccccc'') = 1 \<and>
   linesRemoved (getDiffStats ''a\<newline>bbbbbb'' ''a\<newline>cccccc'') = 1 \<and>
   linesUnchanged (getDiffStats ''a\<newline>bbbbbb'' ''a\<newline>cccccc'') = 1 \<and>
   charactersAdded (getDiffStats ''a\<newline>bbbbbb'' ''a\<newline>cccccc'') = 6 \<and>
   charactersRemoved (getDiffStats ''a\<newline>bbbbbb'' ''a\<newline>cccccc'') = 6 \<and>
   double_product 1 16 = 25 / 2 \<and>
   similarity (getDiffStats ''a\<newline>bbbbbb'' ''a\<newline>cccccc'') = fl (13 / 100)"
proof -
  have small: "length ''a\<newline>bbbbbb'' + length ''a\<newline>cccccc'' < 2 ^ 32"
    by simp
  have diff: "computeDiff ''a\<newline>bbbbbb'' ''a\<newline>cccccc'' =
      [Seg Unchanged ''a'', Seg Removed ''bbbbbb'', Seg Added ''cccccc'']"
    by code_simp
  have product: "double_product 1 16 = 25 / 2"
    by code_simp
  have unchanged: "unchanged_length
      [Seg Unchanged ''a'', Seg Removed ''bbbbbb'', Seg Added ''cccccc''] = 1"
    by (simp add: unchanged_length_def)
  have total: "length ''a\<newline>bbbbbb'' + length ''a\<newline>cccccc'' = 16"
    by simp
  note stats = getDiffStats_counts_and_similarity [OF small, unfolded diff unchanged total product]
  show ?thesis
    using stats product by simp
qed


end
